theory Spec2Isabelle
  imports Main "HOL-Library.Word"
begin

unbundle bit_operations_syntax

section \<open>Data model of route\_lookup.c\<close>

text \<open>
  \<^verbatim>\<open>route_entry_t\<close>: the fields of the C struct. \<^verbatim>\<open>uint32_t\<close> is a 32-bit word; the
  \<^verbatim>\<open>int\<close> and \<^verbatim>\<open>time_t\<close> fields are only stored and compared, never computed with,
  so they are integers. A route pointer is modelled by the record it points to, and a
  pointer that may be \<^verbatim>\<open>NULL\<close> by an option.
\<close>

record route_entry =
  prefix :: "32 word"
  prefix_len :: int
  next_hop :: "32 word"
  as_path :: "int list"
  as_path_len :: int
  local_pref :: int
  med :: int
  last_update :: int

text \<open>
  \<^verbatim>\<open>trie_node_t\<close>: \<^verbatim>\<open>children[0]\<close>, \<^verbatim>\<open>children[1]\<close>, \<^verbatim>\<open>data\<close> and \<^verbatim>\<open>is_leaf\<close>.
  The fields \<^verbatim>\<open>prefix\<close> and \<^verbatim>\<open>prefix_len\<close> of a node are set to \<^verbatim>\<open>NULL\<close> and 0 at
  creation and never read or written again, so they are left out. Every node is owned by
  exactly one slot of its parent, so the pointer graph is a tree. The index of
  \<^verbatim>\<open>children\<close> is a bit: \<open>False\<close> is 0 and \<open>True\<close> is 1.
\<close>

datatype trie_node =
  Node (child0: "trie_node option") (child1: "trie_node option")
       (data: "route_entry option") (is_leaf: bool)

definition children :: "trie_node \<Rightarrow> bool \<Rightarrow> trie_node option" where
  "children node b = (if b then child1 node else child0 node)"

definition set_children :: "trie_node \<Rightarrow> bool \<Rightarrow> trie_node option \<Rightarrow> trie_node" where
  "set_children node b c =
     (if b then Node (child0 node) c (data node) (is_leaf node)
      else Node c (child1 node) (data node) (is_leaf node))"

definition set_data :: "trie_node \<Rightarrow> route_entry option \<Rightarrow> trie_node" where
  "set_data node d = Node (child0 node) (child1 node) d (is_leaf node)"

definition set_is_leaf :: "trie_node \<Rightarrow> bool \<Rightarrow> trie_node" where
  "set_is_leaf node l = Node (child0 node) (child1 node) (data node) l"

section \<open>Allocation\<close>

text \<open>
  \<^verbatim>\<open>malloc\<close> may fail at any call. The heap is the list of the outcomes of the coming
  calls, \<open>True\<close> for a block and \<open>False\<close> for \<^verbatim>\<open>NULL\<close>; when the list is used up
  memory is exhausted and every further call fails.
\<close>

type_synonym heap = "bool list"

fun create_trie_node :: "heap \<Rightarrow> trie_node option \<times> heap" where
  "create_trie_node [] = (None, [])"
| "create_trie_node (ok # h) =
     (if ok then (Some (Node None None None False), h) else (None, h))"

text \<open>
  The node that \<open>create_trie_node\<close> returns when it succeeds. A caller makes the root of
  a trie this way, so this is also the empty trie.
\<close>

definition fresh_node :: trie_node where
  "fresh_node = Node None None None False"

section \<open>The trie store\<close>

text \<open>
  \<^verbatim>\<open>ip_to_binary\<close> writes the 32 bits of the address, most significant first, as
  characters and cuts the string at \<^verbatim>\<open>prefix_len\<close>. The buffer has 33 bytes: a length
  outside 0..32 writes out of bounds, which is undefined behaviour and \<open>None\<close> here.
\<close>

definition ip_to_binary :: "32 word \<Rightarrow> int \<Rightarrow> string option" where
  "ip_to_binary addr len =
     (if 0 \<le> len \<and> len \<le> 32
      then Some (take (nat len)
             (map (\<lambda>i. if drop_bit (31 - i) addr AND 1 \<noteq> 0 then CHR ''1'' else CHR ''0'')
                  [0..<32]))
      else None)"

text \<open>
  The loop of \<^verbatim>\<open>insert_route\<close> over the characters of \<^verbatim>\<open>binary\<close>; the bit
  \<^verbatim>\<open>binary[i] - '0'\<close> is 1 exactly for the character 1. The C code updates the nodes
  in place; the model returns the updated subtree together with the return code and the
  heap. When \<^verbatim>\<open>create_trie_node\<close> fails the function returns -1 and the nodes linked so
  far stay in the trie.
\<close>

fun insert_loop :: "heap \<Rightarrow> trie_node \<Rightarrow> string \<Rightarrow> route_entry \<Rightarrow> int \<times> trie_node \<times> heap" where
  "insert_loop h current [] route = (0, set_is_leaf (set_data current (Some route)) True, h)"
| "insert_loop h current (c # binary) route =
     (let b = (c = CHR ''1'') in
      case children current b of
        None \<Rightarrow>
          (case create_trie_node h of
             (None, h') \<Rightarrow> (- 1, current, h')
           | (Some node, h') \<Rightarrow>
               (case insert_loop h' node binary route of
                  (rc, child', h'') \<Rightarrow> (rc, set_children current b (Some child'), h'')))
      | Some child \<Rightarrow>
          (case insert_loop h child binary route of
             (rc, child', h') \<Rightarrow> (rc, set_children current b (Some child'), h')))"

definition insert_route :: "heap \<Rightarrow> trie_node \<Rightarrow> route_entry \<Rightarrow> (int \<times> trie_node \<times> heap) option" where
  "insert_route h root route =
     (case ip_to_binary (prefix route) (prefix_len route) of
        None \<Rightarrow> None
      | Some binary \<Rightarrow> Some (insert_loop h root binary route))"

text \<open>
  \<^verbatim>\<open>lookup_route_optimized\<close>: the loop over \<open>i = 0, ..., 31\<close> with its \<^verbatim>\<open>break\<close>;
  \<open>best_match\<close> is assigned only after the step into a child.
\<close>

fun lookup_loop :: "trie_node \<Rightarrow> 32 word \<Rightarrow> nat list \<Rightarrow> route_entry option \<Rightarrow> route_entry option" where
  "lookup_loop current addr [] best_match = best_match"
| "lookup_loop current addr (i # is) best_match =
     (let b = (drop_bit (31 - i) addr AND 1 = 1) in
      case children current b of
        None \<Rightarrow> best_match
      | Some child \<Rightarrow>
          lookup_loop child addr is (if is_leaf child then data child else best_match))"

definition lookup_route_optimized :: "trie_node \<Rightarrow> 32 word \<Rightarrow> route_entry option" where
  "lookup_route_optimized root addr = lookup_loop root addr [0..<32] None"

text \<open>
  \<^verbatim>\<open>delete_route\<close>. The array \<^verbatim>\<open>path\<close> of the C code holds the addresses of the child
  slots that were followed; here it is the list of the pairs (parent, bit), the deepest
  first. \<open>delete_descend\<close> is the first loop, \<open>delete_cleanup\<close> the second one, which
  runs from the deepest slot upwards and stops at the first node that is a leaf or has a
  child. \<open>relink\<close> writes a subtree back through the slots above it, which the in-place
  update of the C code does implicitly.
\<close>

type_synonym slots = "(trie_node \<times> bool) list"

fun delete_descend :: "trie_node \<Rightarrow> string \<Rightarrow> slots \<Rightarrow> (trie_node \<times> slots) option" where
  "delete_descend current [] path = Some (current, path)"
| "delete_descend current (c # binary) path =
     (let b = (c = CHR ''1'') in
      case children current b of
        None \<Rightarrow> None
      | Some child \<Rightarrow> delete_descend child binary ((current, b) # path))"

fun relink :: "trie_node \<Rightarrow> slots \<Rightarrow> trie_node" where
  "relink node [] = node"
| "relink node ((parent, b) # path) = relink (set_children parent b (Some node)) path"

fun delete_cleanup :: "trie_node \<Rightarrow> slots \<Rightarrow> trie_node" where
  "delete_cleanup node [] = node"
| "delete_cleanup node ((parent, b) # path) =
     (if \<not> is_leaf node \<and> children node False = None \<and> children node True = None
      then delete_cleanup (set_children parent b None) path
      else relink node ((parent, b) # path))"

definition delete_route :: "trie_node \<Rightarrow> 32 word \<Rightarrow> int \<Rightarrow> (int \<times> trie_node) option" where
  "delete_route root pfx len =
     (case ip_to_binary pfx len of
        None \<Rightarrow> None
      | Some binary \<Rightarrow>
          Some (case delete_descend root binary [] of
                  None \<Rightarrow> (- 1, root)
                | Some (current, path) \<Rightarrow>
                    if \<not> is_leaf current then (- 1, root)
                    else (0, delete_cleanup (set_data (set_is_leaf current False) None) path)))"

section \<open>The lookup cache\<close>

text \<open>
  \<^verbatim>\<open>route_cache_entry_t\<close> and \<^verbatim>\<open>route_cache_t\<close>. The array \<^verbatim>\<open>entries\<close> is modelled by
  the list of its first \<^verbatim>\<open>size\<close> slots, the only ones ever written or read, so
  \<^verbatim>\<open>size\<close> is the length of the list. \<^verbatim>\<open>create_route_cache\<close> does not test what
  \<^verbatim>\<open>malloc\<close> returns; the model is the cache of a call whose allocations succeeded.
  The clock value \<^verbatim>\<open>time(NULL)\<close> is the argument \<open>now\<close>.
\<close>

record route_cache_entry =
  ip :: "32 word"
  route :: "route_entry option"
  timestamp :: int

record route_cache =
  entries :: "route_cache_entry list"
  capacity :: int

definition create_route_cache :: "int \<Rightarrow> route_cache" where
  "create_route_cache c = \<lparr>entries = [], capacity = c\<rparr>"

fun cache_scan :: "route_cache_entry list \<Rightarrow> 32 word \<Rightarrow> int \<Rightarrow> int \<Rightarrow> route_entry option option" where
  "cache_scan [] addr cache_ttl now = None"
| "cache_scan (e # es) addr cache_ttl now =
     (if ip e = addr \<and> now - timestamp e < cache_ttl then Some (route e)
      else cache_scan es addr cache_ttl now)"

definition lookup_with_cache ::
  "trie_node \<Rightarrow> route_cache \<Rightarrow> 32 word \<Rightarrow> int \<Rightarrow> int \<Rightarrow> route_entry option \<times> route_cache" where
  "lookup_with_cache root cache addr cache_ttl now =
     (case cache_scan (entries cache) addr cache_ttl now of
        Some r \<Rightarrow> (r, cache)
      | None \<Rightarrow>
          (let r = lookup_route_optimized root addr in
           if r \<noteq> None \<and> int (length (entries cache)) < capacity cache
           then (r, cache\<lparr>entries := entries cache @ [\<lparr>ip = addr, route = r, timestamp = now\<rparr>]\<rparr>)
           else (r, cache)))"

section \<open>Paths and what the operations do to them\<close>

text \<open>
  The bits of an address, most significant first, as \<open>lookup_route_optimized\<close> reads
  them; the bits that \<open>insert_route\<close> and \<open>delete_route\<close> read from the string of
  \<open>ip_to_binary\<close>; and the path of a route, its first \<open>prefix_len\<close> bits.
\<close>

definition addr_bit :: "32 word \<Rightarrow> nat \<Rightarrow> bool" where
  "addr_bit addr i = (drop_bit (31 - i) addr AND 1 = 1)"

definition addr_bits :: "32 word \<Rightarrow> bool list" where
  "addr_bits addr = map (addr_bit addr) [0..<32]"

definition binary_bits :: "string \<Rightarrow> bool list" where
  "binary_bits binary = map (\<lambda>c. c = CHR ''1'') binary"

definition route_path :: "32 word \<Rightarrow> int \<Rightarrow> bool list" where
  "route_path pfx len = take (nat len) (addr_bits pfx)"

text \<open>
  \<open>walk node bs\<close> is the node reached from \<open>node\<close> along the bits \<open>bs\<close>, if every
  child on the way exists. \<open>best_on\<close> is the loop of the lookup on a list of bits.
\<close>

fun walk :: "trie_node \<Rightarrow> bool list \<Rightarrow> trie_node option" where
  "walk node [] = Some node"
| "walk node (b # bs) = (case children node b of None \<Rightarrow> None | Some child \<Rightarrow> walk child bs)"

fun best_on :: "trie_node \<Rightarrow> bool list \<Rightarrow> route_entry option \<Rightarrow> route_entry option" where
  "best_on node [] best = best"
| "best_on node (b # bs) best =
     (case children node b of
        None \<Rightarrow> best
      | Some child \<Rightarrow> best_on child bs (if is_leaf child then data child else best))"

text \<open>
  The tries that the operations are shown to return. \<open>grow node bs\<close> links fresh nodes
  along \<open>bs\<close> where children are missing, which is what an insertion leaves when it
  runs out of memory; \<open>put node bs r\<close> does the same and anchors \<open>r\<close> at the end, which
  is what an insertion returning 0 leaves; \<open>del node bs\<close> clears the node at the end of
  \<open>bs\<close> and unlinks, from there upwards, the nodes that are \<open>dead\<close>: neither a leaf
  nor the parent of a child.
\<close>

definition child_or_fresh :: "trie_node \<Rightarrow> bool \<Rightarrow> trie_node" where
  "child_or_fresh node b = (case children node b of None \<Rightarrow> fresh_node | Some child \<Rightarrow> child)"

fun grow :: "trie_node \<Rightarrow> bool list \<Rightarrow> trie_node" where
  "grow node [] = node"
| "grow node (b # bs) = set_children node b (Some (grow (child_or_fresh node b) bs))"

fun put :: "trie_node \<Rightarrow> bool list \<Rightarrow> route_entry \<Rightarrow> trie_node" where
  "put node [] r = set_is_leaf (set_data node (Some r)) True"
| "put node (b # bs) r = set_children node b (Some (put (child_or_fresh node b) bs r))"

definition dead :: "trie_node \<Rightarrow> bool" where
  "dead node = (\<not> is_leaf node \<and> children node False = None \<and> children node True = None)"

definition clear_node :: "trie_node \<Rightarrow> trie_node" where
  "clear_node node = set_data (set_is_leaf node False) None"

fun del :: "trie_node \<Rightarrow> bool list \<Rightarrow> trie_node" where
  "del node [] = set_data (set_is_leaf node False) None"
| "del node (b # bs) =
     (case children node b of
        None \<Rightarrow> node
      | Some child \<Rightarrow>
          (let child' = del child bs
           in set_children node b (if dead child' then None else Some child')))"

section \<open>Matching\<close>

text \<open>
  A prefix of length \<open>len\<close> is a bit-prefix of an address when the first \<open>len\<close> bits
  of the two, most significant first, are the same.
\<close>

definition prefix_matches :: "32 word \<Rightarrow> int \<Rightarrow> 32 word \<Rightarrow> bool" where
  "prefix_matches pfx len addr = (take (nat len) (addr_bits addr) = take (nat len) (addr_bits pfx))"

text \<open>
  \<open>has_leaf_on node bs\<close>: a node strictly below \<open>node\<close> on the path \<open>bs\<close> is a leaf.
  \<open>leaf_below root addr len\<close>: the trie holds a leaf deeper than \<open>len\<close> on the path of
  the address.
\<close>

fun has_leaf_on :: "trie_node \<Rightarrow> bool list \<Rightarrow> bool" where
  "has_leaf_on node [] = False"
| "has_leaf_on node (b # bs) =
     (case children node b of
        None \<Rightarrow> False
      | Some child \<Rightarrow> is_leaf child \<or> has_leaf_on child bs)"

definition leaf_below :: "trie_node \<Rightarrow> 32 word \<Rightarrow> int \<Rightarrow> bool" where
  "leaf_below root addr len =
     (case walk root (take (nat len) (addr_bits addr)) of
        None \<Rightarrow> False
      | Some n \<Rightarrow> has_leaf_on n (drop (nat len) (addr_bits addr)))"

section \<open>Sequences of operations\<close>

text \<open>
  The tries that calls of \<open>insert_route\<close> and \<open>delete_route\<close> produce from the empty
  trie. Each call may see any heap and take any argument. With \<open>failures = True\<close> an
  insertion may also have returned -1 for lack of memory; with \<open>failures = False\<close>
  every insertion returned 0.
\<close>

inductive trie_after_ops :: "bool \<Rightarrow> trie_node \<Rightarrow> bool" for failures :: bool where
  empty: "trie_after_ops failures fresh_node"
| inserted: "trie_after_ops failures root \<Longrightarrow>
             insert_route h root r = Some (rc, root', h') \<Longrightarrow>
             failures \<or> rc = 0 \<Longrightarrow>
             trie_after_ops failures root'"
| deleted: "trie_after_ops failures root \<Longrightarrow>
            delete_route root pfx len = Some (rc, root') \<Longrightarrow>
            trie_after_ops failures root'"

text \<open>
  \<open>trie_of_routes rs root\<close>: the trie \<open>root\<close> is the result of inserting the routes \<open>rs\<close>,
  in this order, into the empty trie, every call of \<open>insert_route\<close> returning 0.
\<close>

inductive trie_of_routes :: "route_entry list \<Rightarrow> trie_node \<Rightarrow> bool" where
  none: "trie_of_routes [] fresh_node"
| snoc: "trie_of_routes rs root \<Longrightarrow>
         insert_route h root r = Some (0, root', h') \<Longrightarrow>
         trie_of_routes (rs @ [r]) root'"

text \<open>
  \<open>pruned node\<close>: no node of the subtree at \<open>node\<close>, \<open>node\<close> included, is both
  childless and not a leaf. \<open>pruned_below node\<close>: the same for the nodes below
  \<open>node\<close>.
\<close>

fun pruned :: "trie_node \<Rightarrow> bool" where
  "pruned (Node c0 c1 d l) =
     ((l \<or> c0 \<noteq> None \<or> c1 \<noteq> None) \<and>
      (case c0 of None \<Rightarrow> True | Some c \<Rightarrow> pruned c) \<and>
      (case c1 of None \<Rightarrow> True | Some c \<Rightarrow> pruned c))"

definition pruned_below :: "trie_node \<Rightarrow> bool" where
  "pruned_below node =
     ((case children node False of None \<Rightarrow> True | Some c \<Rightarrow> pruned c) \<and>
      (case children node True of None \<Rightarrow> True | Some c \<Rightarrow> pruned c))"

text \<open>
  The caches that a program can reach: the one \<open>create_route_cache c\<close> returns, and
  every cache left by a call of \<open>lookup_with_cache\<close> on a reachable one, with any trie,
  address, time-to-live and clock value.
\<close>

inductive reachable_cache :: "int \<Rightarrow> route_cache \<Rightarrow> bool" where
  created: "reachable_cache c (create_route_cache c)"
| looked_up: "reachable_cache c cache \<Longrightarrow>
              lookup_with_cache root cache addr cache_ttl now = (r, cache') \<Longrightarrow>
              reachable_cache c cache'"

section \<open>Example values\<close>

text \<open>The routes 10.0.0.0/8, 10.0.1.0/24 and 0.0.0.0/0, and a second record for 10.0.0.0/8.\<close>

definition route_10_8 :: route_entry where
  "route_10_8 = \<lparr>prefix = 0x0A000000, prefix_len = 8, next_hop = 0xC0A80001, as_path = [65001],
     as_path_len = 1, local_pref = 100, med = 0, last_update = 0\<rparr>"

definition route_10_8_alt :: route_entry where
  "route_10_8_alt = \<lparr>prefix = 0x0A000000, prefix_len = 8, next_hop = 0xC0A80002, as_path = [65002],
     as_path_len = 1, local_pref = 200, med = 0, last_update = 5\<rparr>"

definition route_10_0_1_24 :: route_entry where
  "route_10_0_1_24 = \<lparr>prefix = 0x0A000100, prefix_len = 24, next_hop = 0xC0A80003, as_path = [65003],
     as_path_len = 1, local_pref = 100, med = 0, last_update = 0\<rparr>"

definition route_default :: route_entry where
  "route_default = \<lparr>prefix = 0, prefix_len = 0, next_hop = 0xC0A800FE, as_path = [],
     as_path_len = 0, local_pref = 100, med = 0, last_update = 0\<rparr>"

text \<open>A heap on which the next 64 allocations succeed.\<close>

definition plenty :: heap where
  "plenty = replicate 64 True"

text \<open>
  The tries obtained from the empty trie by inserting 10.0.0.0/8 (\<open>trie_10_8\<close>) and then
  10.0.1.0/24 (\<open>trie_10_8_24\<close>); from the latter by deleting 10.0.0.0/8 (\<open>trie_24_left\<close>)
  or by inserting the second record for 10.0.0.0/8 (\<open>trie_alt_24\<close>); and from
  \<open>trie_10_8\<close> by inserting the second record for 10.0.0.0/8 (\<open>trie_10_8_alt\<close>).
\<close>

definition trie_10_8 :: trie_node where
  "trie_10_8 =
     (case insert_route plenty fresh_node route_10_8 of
        Some (rc, root, h) \<Rightarrow> root | None \<Rightarrow> fresh_node)"

definition trie_10_8_24 :: trie_node where
  "trie_10_8_24 =
     (case insert_route plenty trie_10_8 route_10_0_1_24 of
        Some (rc, root, h) \<Rightarrow> root | None \<Rightarrow> fresh_node)"

definition trie_24_left :: trie_node where
  "trie_24_left =
     (case delete_route trie_10_8_24 0x0A000000 8 of
        Some (rc, root) \<Rightarrow> root | None \<Rightarrow> fresh_node)"

definition trie_alt_24 :: trie_node where
  "trie_alt_24 =
     (case insert_route plenty trie_10_8_24 route_10_8_alt of
        Some (rc, root, h) \<Rightarrow> root | None \<Rightarrow> fresh_node)"

definition trie_10_8_alt :: trie_node where
  "trie_10_8_alt =
     (case insert_route plenty trie_10_8 route_10_8_alt of
        Some (rc, root, h) \<Rightarrow> root | None \<Rightarrow> fresh_node)"

text \<open>
  A cache of capacity 2 that holds one entry for 10.0.1.5, written at time 100, and a
  cache of capacity 1 that is full.
\<close>

definition cache_one :: route_cache where
  "cache_one = \<lparr>entries = [\<lparr>ip = 0x0A000105, route = Some route_10_8, timestamp = 100\<rparr>],
                 capacity = 2\<rparr>"

definition cache_full :: route_cache where
  "cache_full = \<lparr>entries = [\<lparr>ip = 0x0A000105, route = Some route_10_0_1_24, timestamp = 100\<rparr>],
                  capacity = 1\<rparr>"

section \<open>Properties of the model\<close>

subsection \<open>Nodes and bits\<close>

lemma children_set_children [simp]:
  "children (set_children node b c) b' = (if b' = b then c else children node b')"
  by (auto simp: children_def set_children_def)

lemma is_leaf_set_children [simp]: "is_leaf (set_children node b c) = is_leaf node"
  by (simp add: set_children_def)

lemma data_set_children [simp]: "data (set_children node b c) = data node"
  by (simp add: set_children_def)

lemma children_set_data [simp]: "children (set_data node d) b = children node b"
  by (simp add: children_def set_data_def)

lemma children_set_is_leaf [simp]: "children (set_is_leaf node l) b = children node b"
  by (simp add: children_def set_is_leaf_def)

lemma is_leaf_set_is_leaf [simp]: "is_leaf (set_is_leaf node l) = l"
  by (simp add: set_is_leaf_def)

lemma is_leaf_set_data [simp]: "is_leaf (set_data node d) = is_leaf node"
  by (simp add: set_data_def)

lemma data_set_data [simp]: "data (set_data node d) = d"
  by (simp add: set_data_def)

lemma data_set_is_leaf [simp]: "data (set_is_leaf node l) = data node"
  by (simp add: set_is_leaf_def)

lemma children_fresh_node [simp]: "children fresh_node b = None"
  by (simp add: fresh_node_def children_def)

lemma is_leaf_fresh_node [simp]: "\<not> is_leaf fresh_node"
  by (simp add: fresh_node_def)

lemma data_fresh_node [simp]: "data fresh_node = None"
  by (simp add: fresh_node_def)

lemma set_children_same [simp]: "children node b = c \<Longrightarrow> set_children node b c = node"
  by (cases node) (auto simp: children_def set_children_def)

lemma node_eqI:
  "children n False = children m False \<Longrightarrow> children n True = children m True \<Longrightarrow>
   data n = data m \<Longrightarrow> is_leaf n = is_leaf m \<Longrightarrow> n = m"
  by (cases n; cases m) (simp add: children_def)

lemma bit_char:
  "((if w AND 1 \<noteq> 0 then CHR ''1'' else CHR ''0'') = CHR ''1'') = (w AND (1 :: 32 word) = 1)"
  by (simp add: and_one_eq)

lemma ip_to_binary_bits:
  "ip_to_binary addr len = Some binary \<Longrightarrow> binary_bits binary = take (nat len) (addr_bits addr)"
  by (auto simp: ip_to_binary_def binary_bits_def addr_bits_def addr_bit_def take_map bit_char
           split: if_splits)

lemma ip_to_binary_Some:
  "0 \<le> len \<Longrightarrow> len \<le> 32 \<Longrightarrow> \<exists>binary. ip_to_binary addr len = Some binary"
  by (simp add: ip_to_binary_def)

lemma length_ip_to_binary:
  "ip_to_binary addr len = Some binary \<Longrightarrow> length binary = nat len"
  by (auto simp: ip_to_binary_def split: if_splits)

lemma length_addr_bits [simp]: "length (addr_bits addr) = 32"
  by (simp add: addr_bits_def)

lemma length_route_path: "0 \<le> len \<Longrightarrow> len \<le> 32 \<Longrightarrow> length (route_path pfx len) = nat len"
  by (simp add: route_path_def)

lemma lookup_loop_best_on:
  "lookup_loop node addr is best = best_on node (map (addr_bit addr) is) best"
  by (induction "is" arbitrary: node best) (auto simp: addr_bit_def split: option.splits)

lemma lookup_best_on: "lookup_route_optimized root addr = best_on root (addr_bits addr) None"
  by (simp add: lookup_route_optimized_def lookup_loop_best_on addr_bits_def)

subsection \<open>Lookups along a path\<close>

lemma best_on_childless:
  "children node False = None \<Longrightarrow> children node True = None \<Longrightarrow> best_on node xs best = best"
proof (cases xs)
  case Nil
  then show ?thesis by simp
next
  case (Cons x xs')
  assume "children node False = None" "children node True = None"
  then have "children node x = None" by (cases x) simp_all
  with Cons show ?thesis by simp
qed

lemma best_on_fresh [simp]: "best_on fresh_node xs best = best"
  by (simp add: best_on_childless)

lemma best_on_children_cong:
  "children n False = children m False \<Longrightarrow> children n True = children m True \<Longrightarrow>
   best_on n xs best = best_on m xs best"
proof (cases xs)
  case Nil
  then show ?thesis by simp
next
  case (Cons x xs')
  assume "children n False = children m False" "children n True = children m True"
  then have "children n x = children m x" by (cases x) simp_all
  with Cons show ?thesis by simp
qed

lemma lookup_ignores_root_flags:
  "lookup_route_optimized (set_is_leaf (set_data root d) l) addr = lookup_route_optimized root addr"
  unfolding lookup_best_on by (rule best_on_children_cong) simp_all

lemma children_alive: "children node b = Some ch \<Longrightarrow> \<not> dead node"
  by (cases b) (auto simp: dead_def)

lemma best_on_dead: "dead node \<Longrightarrow> best_on node xs best = best"
  by (simp add: dead_def best_on_childless)

lemma walk_fresh: "walk fresh_node q = Some n \<Longrightarrow> q = [] \<and> n = fresh_node"
  by (cases q) auto

lemma walk_Cons_Some:
  "walk node (b # bs) = Some n \<Longrightarrow> \<exists>ch. children node b = Some ch \<and> walk ch bs = Some n"
  by (auto split: option.splits)

lemma walk_alive: "walk node p = Some n \<Longrightarrow> p \<noteq> [] \<Longrightarrow> \<not> dead node"
  by (cases p) (auto dest: children_alive split: option.splits)

lemma best_on_append:
  "best_on node (p @ rest) best =
     (case walk node p of
        None \<Rightarrow> best_on node p best
      | Some n \<Rightarrow> best_on n rest (best_on node p best))"
  by (induction p arbitrary: node best) (auto split: option.splits)

lemma best_on_no_leaf: "\<not> has_leaf_on node bs \<Longrightarrow> best_on node bs best = best"
  by (induction bs arbitrary: node) (auto split: option.splits)

lemma best_on_leaf: "has_leaf_on node bs \<Longrightarrow> best_on node bs b1 = best_on node bs b2"
proof (induction bs arbitrary: node b1 b2)
  case Nil
  then show ?case by simp
next
  case (Cons b bs)
  then obtain ch where ch: "children node b = Some ch" "is_leaf ch \<or> has_leaf_on ch bs"
    by (auto split: option.splits)
  show ?case
  proof (cases "is_leaf ch")
    case True
    with ch show ?thesis by simp
  next
    case False
    with ch Cons.IH [of ch b1 b2] show ?thesis by simp
  qed
qed

lemma best_on_deepest:
  "(best_on node bs best = best \<and>
      (\<forall>j n. 0 < j \<and> j \<le> length bs \<and> walk node (take j bs) = Some n \<longrightarrow> \<not> is_leaf n)) \<or>
   (\<exists>k n. 0 < k \<and> k \<le> length bs \<and> walk node (take k bs) = Some n \<and> is_leaf n \<and>
          data n = best_on node bs best \<and>
          (\<forall>j m. k < j \<and> j \<le> length bs \<and> walk node (take j bs) = Some m \<longrightarrow> \<not> is_leaf m))"
proof (induction bs arbitrary: node best)
  case Nil
  show ?case by simp
next
  case (Cons b bs)
  show ?case
  proof (cases "children node b")
    case None
    have "walk node (take j (b # bs)) = None" if "0 < j" for j
      using that None by (cases j) simp_all
    with None show ?thesis by auto
  next
    case (Some c)
    let ?best' = "if is_leaf c then data c else best"
    have res: "best_on node (b # bs) best = best_on c bs ?best'" using Some by simp
    have wk: "walk node (take (Suc j) (b # bs)) = walk c (take j bs)" for j
      using Some by simp
    from Cons.IH [of c ?best'] show ?thesis
    proof
      assume a: "best_on c bs ?best' = ?best' \<and>
        (\<forall>j n. 0 < j \<and> j \<le> length bs \<and> walk c (take j bs) = Some n \<longrightarrow> \<not> is_leaf n)"
      have deeper: "\<not> is_leaf m"
        if "Suc 0 < j" "j \<le> length (b # bs)" "walk node (take j (b # bs)) = Some m" for j m
      proof -
        from that(1) obtain j' where j': "j = Suc j'" "0 < j'" by (cases j) auto
        with that wk have "j' \<le> length bs" "walk c (take j' bs) = Some m" by simp_all
        with a j'(2) show ?thesis by blast
      qed
      show ?thesis
      proof (cases "is_leaf c")
        case True
        with a res have "data c = best_on node (b # bs) best" by simp
        moreover have "walk node (take (Suc 0) (b # bs)) = Some c" using Some by simp
        ultimately have "\<exists>k n. 0 < k \<and> k \<le> length (b # bs) \<and> walk node (take k (b # bs)) = Some n \<and>
          is_leaf n \<and> data n = best_on node (b # bs) best \<and>
          (\<forall>j m. k < j \<and> j \<le> length (b # bs) \<and> walk node (take j (b # bs)) = Some m \<longrightarrow> \<not> is_leaf m)"
          using True deeper by (intro exI [of _ "Suc 0"] exI [of _ c]) auto
        then show ?thesis ..
      next
        case False
        have "\<not> is_leaf m"
          if "0 < j" "j \<le> length (b # bs)" "walk node (take j (b # bs)) = Some m" for j m
        proof (cases "j = Suc 0")
          case True
          with that Some False show ?thesis by simp
        next
          case nj: False
          with that(1) have "Suc 0 < j" by simp
          from deeper [OF this that(2,3)] show ?thesis .
        qed
        with a res False show ?thesis by auto
      qed
    next
      assume "\<exists>k n. 0 < k \<and> k \<le> length bs \<and> walk c (take k bs) = Some n \<and> is_leaf n \<and>
          data n = best_on c bs ?best' \<and>
          (\<forall>j m. k < j \<and> j \<le> length bs \<and> walk c (take j bs) = Some m \<longrightarrow> \<not> is_leaf m)"
      then obtain k n where k: "0 < k" "k \<le> length bs" "walk c (take k bs) = Some n" "is_leaf n"
        "data n = best_on c bs ?best'"
        "\<forall>j m. k < j \<and> j \<le> length bs \<and> walk c (take j bs) = Some m \<longrightarrow> \<not> is_leaf m"
        by blast
      have deeper: "\<not> is_leaf m"
        if "Suc k < j" "j \<le> length (b # bs)" "walk node (take j (b # bs)) = Some m" for j m
      proof -
        from that(1) obtain j' where j': "j = Suc j'" "k < j'" by (cases j) auto
        with that wk have "j' \<le> length bs" "walk c (take j' bs) = Some m" by simp_all
        with k(6) j'(2) show ?thesis by blast
      qed
      have "walk node (take (Suc k) (b # bs)) = Some n" using wk k(3) by simp
      with k(2,4,5) res deeper
      have "\<exists>k n. 0 < k \<and> k \<le> length (b # bs) \<and> walk node (take k (b # bs)) = Some n \<and>
          is_leaf n \<and> data n = best_on node (b # bs) best \<and>
          (\<forall>j m. k < j \<and> j \<le> length (b # bs) \<and> walk node (take j (b # bs)) = Some m \<longrightarrow> \<not> is_leaf m)"
        by (intro exI [of _ "Suc k"] exI [of _ n]) auto
      then show ?thesis ..
    qed
  qed
qed

subsection \<open>The loop of insert\_route\<close>

lemma create_trie_node_cases:
  "create_trie_node h = (Some node, h') \<Longrightarrow> node = fresh_node"
  by (cases h) (auto simp: fresh_node_def split: if_splits)

lemma insert_loop_rc:
  "insert_loop h node binary r = (rc, node', h') \<Longrightarrow> rc = 0 \<or> rc = - 1"
proof (induction binary arbitrary: h node rc node' h')
  case Nil
  then show ?case by simp
next
  case (Cons c binary)
  then show ?case
    by (auto simp: Let_def split: option.splits prod.splits)
qed

lemma insert_loop_put:
  "insert_loop h node binary r = (0, node', h') \<Longrightarrow> node' = put node (binary_bits binary) r"
proof (induction binary arbitrary: h node node' h')
  case Nil
  then show ?case by (simp add: binary_bits_def)
next
  case (Cons c binary)
  then show ?case
    by (auto simp: Let_def binary_bits_def child_or_fresh_def
             dest!: create_trie_node_cases split: option.splits prod.splits)
qed

lemma insert_loop_grow:
  "insert_loop h node binary r = (- 1, node', h') \<Longrightarrow>
   \<exists>k < length binary. node' = grow node (take k (binary_bits binary))"
proof (induction binary arbitrary: h node node' h')
  case Nil
  then show ?case by simp
next
  case (Cons c binary)
  let ?b = "c = CHR ''1''"
  show ?case
  proof (cases "children node ?b")
    case None
    show ?thesis
    proof (cases "create_trie_node h")
      case (Pair n h1)
      show ?thesis
      proof (cases n)
        case None
        with Cons.prems \<open>children node ?b = None\<close> Pair have "node' = node"
          by (simp add: Let_def)
        then have "node' = grow node (take 0 (binary_bits (c # binary)))" by simp
        then show ?thesis by (metis length_greater_0_conv list.distinct(1))
      next
        case (Some m)
        with Pair have m: "m = fresh_node" by (simp add: create_trie_node_cases)
        obtain rc2 c2 h2 where il: "insert_loop h1 m binary r = (rc2, c2, h2)"
          by (cases "insert_loop h1 m binary r") auto
        with Cons.prems \<open>children node ?b = None\<close> Pair Some
        have rc2: "rc2 = - 1" and n': "node' = set_children node ?b (Some c2)"
          by (auto simp: Let_def)
        from Cons.IH[OF il[unfolded rc2]] obtain k where
          k: "k < length binary" "c2 = grow m (take k (binary_bits binary))" by blast
        have "node' = grow node (take (Suc k) (binary_bits (c # binary)))"
          using n' k m \<open>children node ?b = None\<close>
          by (simp add: binary_bits_def child_or_fresh_def)
        with k(1) show ?thesis by (metis Suc_less_eq length_Cons)
      qed
    qed
  next
    case (Some ch)
    obtain rc2 c2 h2 where il: "insert_loop h ch binary r = (rc2, c2, h2)"
      by (cases "insert_loop h ch binary r") auto
    with Cons.prems Some
    have rc2: "rc2 = - 1" and n': "node' = set_children node ?b (Some c2)"
      by (auto simp: Let_def)
    from Cons.IH[OF il[unfolded rc2]] obtain k where
      k: "k < length binary" "c2 = grow ch (take k (binary_bits binary))" by blast
    have "node' = grow node (take (Suc k) (binary_bits (c # binary)))"
      using n' k Some by (simp add: binary_bits_def child_or_fresh_def)
    with k(1) show ?thesis by (metis Suc_less_eq length_Cons)
  qed
qed

lemma insert_loop_existing:
  "walk node (binary_bits binary) \<noteq> None \<Longrightarrow>
   insert_loop h node binary r = (0, put node (binary_bits binary) r, h)"
proof (induction binary arbitrary: node)
  case Nil
  show ?case by (simp add: binary_bits_def)
next
  case (Cons c binary)
  let ?b = "c = CHR ''1''"
  from Cons.prems obtain ch where ch: "children node ?b = Some ch"
    "walk ch (binary_bits binary) \<noteq> None"
    by (auto simp: binary_bits_def split: option.splits)
  from Cons.IH [OF ch(2)] ch(1) show ?case
    by (simp add: binary_bits_def child_or_fresh_def)
qed

lemma insert_route_put:
  "insert_route h root r = Some (0, root', h') \<Longrightarrow>
   root' = put root (route_path (prefix r) (prefix_len r)) r"
  by (auto simp: insert_route_def route_path_def split: option.splits
           dest!: insert_loop_put ip_to_binary_bits)

lemma insert_route_range:
  "insert_route h root r = Some res \<Longrightarrow> 0 \<le> prefix_len r \<and> prefix_len r \<le> 32"
  by (auto simp: insert_route_def ip_to_binary_def split: option.splits if_splits)

subsection \<open>Growing a path\<close>

lemma is_leaf_grow [simp]: "is_leaf (grow node p) = is_leaf node"
  by (cases p) simp_all

lemma data_grow [simp]: "data (grow node p) = data node"
  by (cases p) simp_all

lemma best_on_grow: "best_on (grow node p) xs best = best_on node xs best"
proof (induction p arbitrary: node xs best)
  case Nil
  show ?case by simp
next
  case (Cons b p)
  show ?case
  proof (cases xs)
    case Nil
    then show ?thesis by simp
  next
    case (Cons x xs')
    show ?thesis
    proof (cases "x = b")
      case False
      with Cons show ?thesis by simp
    next
      case True
      show ?thesis
      proof (cases "children node b")
        case None
        with True Cons Cons.IH show ?thesis by (simp add: child_or_fresh_def)
      next
        case (Some ch)
        with True Cons Cons.IH show ?thesis by (simp add: child_or_fresh_def)
      qed
    qed
  qed
qed

lemma walk_grow_old:
  "walk node q = Some n \<Longrightarrow>
   \<exists>n'. walk (grow node p) q = Some n' \<and> is_leaf n' = is_leaf n \<and> data n' = data n"
proof (induction p arbitrary: node q)
  case Nil
  then show ?case by simp
next
  case (Cons b p)
  show ?case
  proof (cases q)
    case Nil
    with Cons.prems show ?thesis by auto
  next
    case (Cons x xs)
    show ?thesis
    proof (cases "x = b")
      case False
      with Cons Cons.prems show ?thesis by (auto split: option.splits)
    next
      case True
      with Cons Cons.prems obtain ch where ch: "children node b = Some ch" "walk ch xs = Some n"
        by (auto split: option.splits)
      from Cons.IH[OF ch(2)] True Cons ch(1) show ?thesis
        by (simp add: child_or_fresh_def)
    qed
  qed
qed

lemma walk_grow_new:
  "walk (grow node p) q = Some n' \<Longrightarrow> walk node q = None \<Longrightarrow> \<not> is_leaf n' \<and> data n' = None"
proof (induction p arbitrary: node q)
  case Nil
  then show ?case by simp
next
  case (Cons b p)
  show ?case
  proof (cases q)
    case Nil
    with Cons.prems show ?thesis by simp
  next
    case (Cons x xs)
    show ?thesis
    proof (cases "x = b")
      case False
      with Cons Cons.prems show ?thesis by (auto split: option.splits)
    next
      case True
      with Cons Cons.prems have w: "walk (grow (child_or_fresh node b) p) xs = Some n'"
        by simp
      show ?thesis
      proof (cases "children node b")
        case (Some ch)
        with True Cons Cons.prems have "walk ch xs = None" by simp
        with w Some Cons.IH[of ch xs] show ?thesis by (simp add: child_or_fresh_def)
      next
        case None
        then have cf: "child_or_fresh node b = fresh_node" by (simp add: child_or_fresh_def)
        show ?thesis
        proof (cases xs)
          case Nil
          with w cf show ?thesis by auto
        next
          case (Cons y ys)
          then have "walk fresh_node xs = None" by simp
          with w cf Cons.IH[of fresh_node xs] show ?thesis by simp
        qed
      qed
    qed
  qed
qed

lemma grow_fresh_children:
  "children (grow fresh_node p) False = None \<or> children (grow fresh_node p) True = None"
  by (cases p) auto

lemma walk_grow_new_children:
  "walk (grow node p) q = Some n' \<Longrightarrow> walk node q = None \<Longrightarrow>
   children n' False = None \<or> children n' True = None"
proof (induction p arbitrary: node q)
  case Nil
  then show ?case by simp
next
  case (Cons b p)
  show ?case
  proof (cases q)
    case Nil
    with Cons.prems show ?thesis by simp
  next
    case (Cons x xs)
    show ?thesis
    proof (cases "x = b")
      case False
      with Cons Cons.prems show ?thesis by (auto split: option.splits)
    next
      case True
      with Cons Cons.prems have w: "walk (grow (child_or_fresh node b) p) xs = Some n'"
        by simp
      show ?thesis
      proof (cases "children node b")
        case (Some ch)
        with True Cons Cons.prems have "walk ch xs = None" by simp
        with w Some Cons.IH[of ch xs] show ?thesis by (simp add: child_or_fresh_def)
      next
        case None
        then have cf: "child_or_fresh node b = fresh_node" by (simp add: child_or_fresh_def)
        show ?thesis
        proof (cases xs)
          case Nil
          with w cf have "n' = grow fresh_node p" by simp
          then show ?thesis using grow_fresh_children by simp
        next
          case (Cons y ys)
          then have "walk fresh_node xs = None" by simp
          with w cf Cons.IH[of fresh_node xs] show ?thesis by simp
        qed
      qed
    qed
  qed
qed

subsection \<open>Anchoring a route\<close>

lemma walk_put_end:
  "\<exists>n'. walk (put node p r) p = Some n' \<and> is_leaf n' \<and> data n' = Some r \<and>
        (\<forall>b. children n' b = (case walk node p of None \<Rightarrow> None | Some n \<Rightarrow> children n b))"
proof (induction p arbitrary: node)
  case Nil
  show ?case by simp
next
  case (Cons b p)
  from Cons.IH [of "child_or_fresh node b"] obtain n' where
    n': "walk (put (child_or_fresh node b) p r) p = Some n'" "is_leaf n'" "data n' = Some r"
      "\<forall>x. children n' x
             = (case walk (child_or_fresh node b) p of None \<Rightarrow> None | Some n \<Rightarrow> children n x)"
    by blast
  have "(case walk (child_or_fresh node b) p of None \<Rightarrow> None | Some n \<Rightarrow> children n x)
          = (case walk node (b # p) of None \<Rightarrow> None | Some n \<Rightarrow> children n x)" for x
  proof (cases "children node b")
    case None
    then have "child_or_fresh node b = fresh_node" by (simp add: child_or_fresh_def)
    with None show ?thesis by (auto dest: walk_fresh split: option.splits)
  next
    case (Some ch)
    then show ?thesis by (simp add: child_or_fresh_def)
  qed
  with n' show ?case by simp
qed

lemma is_leaf_put_Cons [simp]: "is_leaf (put node (b # p) r) = is_leaf node"
  by simp

lemma data_put_Cons [simp]: "data (put node (b # p) r) = data node"
  by simp

lemma best_on_put_end: "p \<noteq> [] \<Longrightarrow> best_on (put node p r) p best = Some r"
proof (induction p arbitrary: node best)
  case Nil
  then show ?case by simp
next
  case (Cons b p)
  show ?case
  proof (cases "p = []")
    case True
    then show ?thesis by simp
  next
    case False
    then obtain b' p' where p: "p = b' # p'" by (cases p) auto
    from Cons.IH [OF False] show ?thesis by (simp add: p)
  qed
qed

lemma put_put: "put (put node p r1) p r2 = put node p r2"
proof (induction p arbitrary: node)
  case Nil
  show ?case by (simp add: set_data_def set_is_leaf_def)
next
  case (Cons b p)
  have "child_or_fresh (put node (b # p) r1) b = put (child_or_fresh node b) p r1"
    by (simp add: child_or_fresh_def)
  with Cons.IH [of "child_or_fresh node b"] show ?case
    by (simp add: set_children_def)
qed

lemma put_lookup:
  assumes "p \<noteq> []"
  shows "best_on (put root p r) (p @ rest) None =
           (case walk root p of
              None \<Rightarrow> Some r
            | Some n \<Rightarrow> if has_leaf_on n rest then best_on root (p @ rest) None else Some r)"
proof -
  from walk_put_end [of root p r] obtain n' where
    n': "walk (put root p r) p = Some n'"
    "\<forall>b. children n' b = (case walk root p of None \<Rightarrow> None | Some n \<Rightarrow> children n b)"
    by blast
  have l: "best_on (put root p r) (p @ rest) None = best_on n' rest (Some r)"
    by (simp add: best_on_append n'(1) best_on_put_end [OF assms])
  show ?thesis
  proof (cases "walk root p")
    case None
    with n'(2) have "best_on n' rest (Some r) = Some r" by (simp add: best_on_childless)
    with l None show ?thesis by simp
  next
    case (Some n)
    with n'(2) have "best_on n' rest (Some r) = best_on n rest (Some r)"
      by (intro best_on_children_cong) simp_all
    with l have l': "best_on (put root p r) (p @ rest) None = best_on n rest (Some r)" by simp
    show ?thesis
    proof (cases "has_leaf_on n rest")
      case True
      from best_on_leaf [OF True] have "best_on n rest (Some r) = best_on n rest (best_on root p None)" .
      with l' Some True show ?thesis by (simp add: best_on_append)
    next
      case False
      with l' Some show ?thesis by (simp add: best_on_no_leaf)
    qed
  qed
qed

lemma walk_put_other:
  "walk (put node p r) q = Some n \<Longrightarrow> is_leaf n \<Longrightarrow> q \<noteq> p \<Longrightarrow>
   \<exists>n0. walk node q = Some n0 \<and> is_leaf n0 \<and> data n0 = data n"
proof (induction p arbitrary: node q)
  case Nil
  then obtain x xs where q: "q = x # xs" by (cases q) auto
  with Nil show ?case by (auto split: option.splits)
next
  case (Cons b p)
  show ?case
  proof (cases q)
    case Nil
    with Cons.prems show ?thesis by auto
  next
    case (Cons x xs)
    show ?thesis
    proof (cases "x = b")
      case False
      with Cons Cons.prems show ?thesis by (auto split: option.splits)
    next
      case True
      with Cons Cons.prems have w: "walk (put (child_or_fresh node b) p r) xs = Some n"
        and ne: "xs \<noteq> p" by simp_all
      from Cons.IH [OF w Cons.prems(2) ne] obtain n0 where
        n0: "walk (child_or_fresh node b) xs = Some n0" "is_leaf n0" "data n0 = data n" by blast
      show ?thesis
      proof (cases "children node b")
        case None
        with n0 have False by (auto simp: child_or_fresh_def dest: walk_fresh)
        then show ?thesis ..
      next
        case (Some ch)
        with n0 True Cons show ?thesis by (simp add: child_or_fresh_def)
      qed
    qed
  qed
qed

lemma walk_put_keeps_leaf:
  "walk node q = Some n0 \<Longrightarrow> is_leaf n0 \<Longrightarrow> \<exists>n. walk (put node p r) q = Some n \<and> is_leaf n"
proof (induction p arbitrary: node q)
  case Nil
  then show ?case by (cases q) (auto split: option.splits)
next
  case (Cons b p)
  show ?case
  proof (cases q)
    case Nil
    with Cons.prems show ?thesis by auto
  next
    case (Cons x xs)
    show ?thesis
    proof (cases "x = b")
      case False
      with Cons Cons.prems show ?thesis by (auto split: option.splits)
    next
      case True
      with Cons Cons.prems obtain ch where ch: "children node b = Some ch" "walk ch xs = Some n0"
        by (auto split: option.splits)
      from Cons.IH [OF ch(2) Cons.prems(2)] ch(1) True Cons show ?thesis
        by (simp add: child_or_fresh_def)
    qed
  qed
qed

lemma trie_of_routes_inv:
  "trie_of_routes rs root \<Longrightarrow>
   (\<forall>r \<in> set rs. 0 \<le> prefix_len r \<and> prefix_len r \<le> 32) \<and>
   (\<forall>q n. q \<noteq> [] \<and> walk root q = Some n \<and> is_leaf n \<longrightarrow>
      (\<exists>r \<in> set rs. data n = Some r \<and> route_path (prefix r) (prefix_len r) = q)) \<and>
   (\<forall>r \<in> set rs. \<exists>n. walk root (route_path (prefix r) (prefix_len r)) = Some n \<and> is_leaf n)"
proof (induction rule: trie_of_routes.induct)
  case none
  show ?case by (auto dest: walk_fresh)
next
  case (snoc rs root h r root' h')
  let ?p = "route_path (prefix r) (prefix_len r)"
  from insert_route_put [OF snoc.hyps(2)] have r': "root' = put root ?p r" .
  from walk_put_end [of root ?p r] obtain e where
    e: "walk root' ?p = Some e" "is_leaf e" "data e = Some r" unfolding r' by blast
  have 1: "\<forall>x \<in> set (rs @ [r]). 0 \<le> prefix_len x \<and> prefix_len x \<le> 32"
    using snoc.IH insert_route_range [OF snoc.hyps(2)] by auto
  have 2: "\<forall>q n. q \<noteq> [] \<and> walk root' q = Some n \<and> is_leaf n \<longrightarrow>
      (\<exists>x \<in> set (rs @ [r]). data n = Some x \<and> route_path (prefix x) (prefix_len x) = q)"
  proof (intro allI impI)
    fix q n
    assume a: "q \<noteq> [] \<and> walk root' q = Some n \<and> is_leaf n"
    show "\<exists>x \<in> set (rs @ [r]). data n = Some x \<and> route_path (prefix x) (prefix_len x) = q"
    proof (cases "q = ?p")
      case True
      with a e show ?thesis by simp
    next
      case False
      from a have "walk (put root ?p r) q = Some n" "is_leaf n" by (simp_all add: r')
      from walk_put_other [OF this False] obtain n0 where
        n0: "walk root q = Some n0" "is_leaf n0" "data n0 = data n" by blast
      from snoc.IH a n0(1,2) obtain x where
        x: "x \<in> set rs" "data n0 = Some x" "route_path (prefix x) (prefix_len x) = q" by blast
      from x(1) have "x \<in> set (rs @ [r])" by simp
      moreover from x(2) n0(3) have "data n = Some x" by simp
      ultimately show ?thesis using x(3) by blast
    qed
  qed
  have 3: "\<forall>x \<in> set (rs @ [r]).
             \<exists>n. walk root' (route_path (prefix x) (prefix_len x)) = Some n \<and> is_leaf n"
  proof
    fix x
    assume "x \<in> set (rs @ [r])"
    then consider "x = r" | "x \<in> set rs" by auto
    then show "\<exists>n. walk root' (route_path (prefix x) (prefix_len x)) = Some n \<and> is_leaf n"
    proof cases
      case 1
      with e show ?thesis by blast
    next
      case 2
      with snoc.IH obtain n0 where
        "walk root (route_path (prefix x) (prefix_len x)) = Some n0" "is_leaf n0" by blast
      from walk_put_keeps_leaf [OF this] show ?thesis unfolding r' .
    qed
  qed
  from 1 2 3 show ?case by (intro conjI)
qed

subsection \<open>The two loops of delete\_route\<close>

lemma delete_descend_walk:
  "delete_descend current binary path = Some (n, path') \<Longrightarrow>
   walk current (binary_bits binary) = Some n"
  by (induction binary arbitrary: current path)
     (auto simp: binary_bits_def Let_def split: option.splits)

lemma delete_descend_None:
  "delete_descend current binary path = None \<longleftrightarrow> walk current (binary_bits binary) = None"
  by (induction binary arbitrary: current path)
     (auto simp: binary_bits_def Let_def split: option.splits)

lemma delete_cleanup_alive: "\<not> dead node \<Longrightarrow> delete_cleanup node path = relink node path"
  by (cases path) (auto simp: dead_def)

lemma dead_set_children_Some [simp]: "\<not> dead (set_children node b (Some c))"
  by (cases b) (auto simp: dead_def)

lemma delete_cleanup_del:
  "delete_descend current binary path0 = Some (n, path) \<Longrightarrow>
   delete_cleanup (clear_node n) path = delete_cleanup (del current (binary_bits binary)) path0"
proof (induction binary arbitrary: current path0)
  case Nil
  then show ?case by (simp add: binary_bits_def clear_node_def)
next
  case (Cons c binary)
  let ?b = "c = CHR ''1''"
  from Cons.prems obtain ch where ch: "children current ?b = Some ch"
    and d: "delete_descend ch binary ((current, ?b) # path0) = Some (n, path)"
    by (auto simp: Let_def split: option.splits)
  let ?c' = "del ch (binary_bits binary)"
  have "delete_cleanup (clear_node n) path = delete_cleanup ?c' ((current, ?b) # path0)"
    by (rule Cons.IH[OF d])
  also have "\<dots> = delete_cleanup (del current (binary_bits (c # binary))) path0"
  proof (cases "dead ?c'")
    case True
    with ch show ?thesis by (simp add: binary_bits_def dead_def)
  next
    case False
    then have "delete_cleanup ?c' ((current, ?b) # path0)
                 = relink (set_children current ?b (Some ?c')) path0"
      by (auto simp: dead_def)
    moreover have "delete_cleanup (set_children current ?b (Some ?c')) path0
                 = relink (set_children current ?b (Some ?c')) path0"
      by (simp add: delete_cleanup_alive)
    ultimately show ?thesis using ch False by (simp add: binary_bits_def)
  qed
  finally show ?case .
qed

lemma delete_route_del:
  assumes "0 \<le> len" "len \<le> 32"
  shows "delete_route root pfx len =
           Some (case walk root (route_path pfx len) of
                   None \<Rightarrow> (- 1, root)
                 | Some n \<Rightarrow> if is_leaf n then (0, del root (route_path pfx len)) else (- 1, root))"
proof -
  from assms obtain binary where b: "ip_to_binary pfx len = Some binary"
    using ip_to_binary_Some by blast
  then have bb: "binary_bits binary = route_path pfx len"
    by (simp add: ip_to_binary_bits route_path_def)
  show ?thesis
  proof (cases "delete_descend root binary []")
    case None
    then have "walk root (route_path pfx len) = None"
      using bb delete_descend_None by metis
    with None b show ?thesis by (simp add: delete_route_def)
  next
    case (Some np)
    obtain n path where np: "np = (n, path)" by (cases np)
    with Some have w: "walk root (route_path pfx len) = Some n"
      using bb delete_descend_walk by metis
    from Some np have "delete_cleanup (clear_node n) path = del root (route_path pfx len)"
      using delete_cleanup_del [of root binary "[]" n path] bb by simp
    with Some np b w show ?thesis by (simp add: delete_route_def clear_node_def)
  qed
qed

lemma delete_route_range:
  "delete_route root pfx len = Some res \<Longrightarrow> 0 \<le> len \<and> len \<le> 32"
  by (auto simp: delete_route_def ip_to_binary_def split: option.splits if_splits)

lemma delete_route_result:
  "delete_route root pfx len = Some (rc, root') \<Longrightarrow>
   root' = root \<or> root' = del root (route_path pfx len)"
proof -
  assume d: "delete_route root pfx len = Some (rc, root')"
  from delete_route_range [OF d] have "0 \<le> len" "len \<le> 32" by simp_all
  from delete_route_del [OF this, of root pfx] d show ?thesis
    by (auto split: option.splits if_splits)
qed

lemma walk_del:
  "walk node p = Some n \<Longrightarrow>
   walk (del node p) p = (if p = [] \<or> \<not> dead (clear_node n) then Some (clear_node n) else None)"
proof (induction p arbitrary: node)
  case Nil
  then show ?case by (simp add: clear_node_def)
next
  case (Cons b p)
  from walk_Cons_Some[OF Cons.prems] obtain ch where
    ch: "children node b = Some ch" "walk ch p = Some n" by blast
  let ?c' = "del ch p"
  note IH = Cons.IH[OF ch(2)]
  show ?case
  proof (cases "p = []")
    case True
    with ch have "n = ch" by simp
    with True ch show ?thesis by (simp add: clear_node_def Let_def)
  next
    case False
    show ?thesis
    proof (cases "dead (clear_node n)")
      case True
      with IH False have "walk ?c' p = None" by simp
      with ch True show ?thesis by (simp add: Let_def)
    next
      case nd: False
      with IH have w: "walk ?c' p = Some (clear_node n)" by simp
      then have "\<not> dead ?c'" using False walk_alive by blast
      with ch w nd show ?thesis by (simp add: Let_def)
    qed
  qed
qed

lemma is_leaf_del_Cons [simp]: "is_leaf (del node (b # p)) = is_leaf node"
  by (simp add: Let_def split: option.splits)

lemma data_del_Cons [simp]: "data (del node (b # p)) = data node"
  by (simp add: Let_def split: option.splits)

lemma del_put_view:
  assumes "case walk c p of None \<Rightarrow> True | Some n \<Rightarrow> \<not> is_leaf n"
  shows "is_leaf (del (put c p r) p) = is_leaf c \<and>
         (is_leaf c \<longrightarrow> data (del (put c p r) p) = data c) \<and>
         (\<forall>xs best. best_on (del (put c p r) p) xs best = best_on c xs best)"
  using assms
proof (induction p arbitrary: c)
  case Nil
  have "best_on (del (put c [] r) []) xs best = best_on c xs best" for xs best
    by (rule best_on_children_cong) simp_all
  with Nil show ?case by simp
next
  case (Cons b p)
  let ?c0 = "child_or_fresh c b"
  let ?c1 = "put ?c0 p r"
  let ?c1' = "del ?c1 p"
  let ?res = "del (put c (b # p) r) (b # p)"
  have H0: "case walk ?c0 p of None \<Rightarrow> True | Some n \<Rightarrow> \<not> is_leaf n"
  proof (cases "children c b")
    case None
    then show ?thesis
      by (auto simp: child_or_fresh_def dest: walk_fresh split: option.splits)
  next
    case (Some ch)
    with Cons.prems show ?thesis by (simp add: child_or_fresh_def)
  qed
  note V = Cons.IH [OF H0]
  have res: "?res = set_children c b (if dead ?c1' then None else Some ?c1')"
    by (simp add: Let_def set_children_def children_def)
  have "best_on ?res xs best = best_on c xs best" for xs best
  proof (cases xs)
    case Nil
    then show ?thesis by simp
  next
    case (Cons x xs')
    show ?thesis
    proof (cases "x = b")
      case False
      with Cons res show ?thesis by simp
    next
      case True
      show ?thesis
      proof (cases "children c b")
        case None
        then have c0: "?c0 = fresh_node" by (simp add: child_or_fresh_def)
        from V c0 have v: "\<not> is_leaf ?c1'" "best_on ?c1' xs' best = best" by simp_all
        with Cons True None res show ?thesis by simp
      next
        case (Some ch)
        then have c0: "?c0 = ch" by (simp add: child_or_fresh_def)
        show ?thesis
        proof (cases "dead ?c1'")
          case d: True
          then have nl: "\<not> is_leaf ?c1'" by (simp add: dead_def)
          with V c0 have "\<not> is_leaf ch" by simp
          moreover from V c0 have "best_on ch xs' best = best_on ?c1' xs' best" by simp
          ultimately show ?thesis using Cons True Some res d by (simp add: best_on_dead)
        next
          case d: False
          from V c0 have "best_on ?c1' xs' (if is_leaf ?c1' then data ?c1' else best)
                            = best_on ch xs' (if is_leaf ch then data ch else best)"
            by auto
          with Cons True Some res d show ?thesis by simp
        qed
      qed
    qed
  qed
  moreover have "is_leaf ?res = is_leaf c" "data ?res = data c"
    by (simp_all only: is_leaf_del_Cons is_leaf_put_Cons data_del_Cons data_put_Cons)
  ultimately show ?case by blast
qed

subsection \<open>Pruned tries\<close>

lemma pruned_iff: "pruned node \<longleftrightarrow> \<not> dead node \<and> pruned_below node"
  by (cases node) (auto simp: dead_def pruned_below_def children_def)

lemma pruned_below_child:
  "pruned_below node \<Longrightarrow> children node b = Some c \<Longrightarrow> pruned c"
  by (cases b) (auto simp: pruned_below_def)

lemma pruned_below_set_children:
  "pruned_below node \<Longrightarrow> (case c of None \<Rightarrow> True | Some ch \<Rightarrow> pruned ch) \<Longrightarrow>
   pruned_below (set_children node b c)"
  by (cases b) (auto simp: pruned_below_def)

lemma pruned_below_fresh [simp]: "pruned_below fresh_node"
  by (simp add: pruned_below_def)

lemma pruned_below_child_or_fresh: "pruned_below node \<Longrightarrow> pruned_below (child_or_fresh node b)"
  by (auto simp: child_or_fresh_def pruned_iff dest: pruned_below_child split: option.splits)

lemma pruned_below_flags [simp]:
  "pruned_below (set_data node d) = pruned_below node"
  "pruned_below (set_is_leaf node l) = pruned_below node"
  by (simp_all add: pruned_below_def)

lemma pruned_put: "pruned_below node \<Longrightarrow> pruned (put node p r)"
proof (induction p arbitrary: node)
  case Nil
  then show ?case by (simp add: pruned_iff dead_def)
next
  case (Cons b p)
  from Cons.IH [OF pruned_below_child_or_fresh [OF Cons.prems]]
  have "pruned (put (child_or_fresh node b) p r)" .
  with Cons.prems show ?case
    by (simp add: pruned_iff pruned_below_set_children)
qed

lemma pruned_del:
  "pruned_below node \<Longrightarrow> pruned_below (del node p) \<and> (\<not> dead (del node p) \<longrightarrow> pruned (del node p))"
proof (induction p arbitrary: node)
  case Nil
  then show ?case by (simp add: pruned_iff)
next
  case (Cons b p)
  show ?case
  proof (cases "children node b")
    case None
    with Cons.prems show ?thesis by (simp add: pruned_iff)
  next
    case (Some ch)
    with Cons.prems have "pruned_below ch"
      using pruned_below_child pruned_iff by blast
    from Cons.IH [OF this]
    have "pruned_below (del node (b # p))"
      using Some Cons.prems by (simp add: Let_def pruned_below_set_children)
    then show ?thesis by (simp add: pruned_iff)
  qed
qed

lemma pruned_walk: "pruned node \<Longrightarrow> walk node q = Some n \<Longrightarrow> pruned n"
proof (induction q arbitrary: node)
  case Nil
  then show ?case by simp
next
  case (Cons b q)
  from walk_Cons_Some [OF Cons.prems(2)] obtain ch where
    ch: "children node b = Some ch" "walk ch q = Some n" by blast
  from Cons.prems(1) ch(1) have "pruned ch"
    using pruned_below_child pruned_iff by blast
  from Cons.IH [OF this ch(2)] show ?case .
qed

lemma pruned_below_walk:
  "pruned_below node \<Longrightarrow> walk node q = Some n \<Longrightarrow> q \<noteq> [] \<Longrightarrow> \<not> dead n"
proof (cases q)
  case Nil
  assume "q \<noteq> []"
  with Nil show ?thesis by simp
next
  case (Cons b q')
  assume pb: "pruned_below node" and w: "walk node q = Some n"
  from walk_Cons_Some [OF w [unfolded Cons]] obtain ch where
    ch: "children node b = Some ch" "walk ch q' = Some n" by blast
  from pruned_walk [OF pruned_below_child [OF pb ch(1)] ch(2)] show ?thesis
    by (simp add: pruned_iff)
qed

lemma trie_after_ops_pruned_below: "trie_after_ops False root \<Longrightarrow> pruned_below root"
proof (induction rule: trie_after_ops.induct)
  case empty
  show ?case by simp
next
  case (inserted root h r rc root' h')
  then have "root' = put root (route_path (prefix r) (prefix_len r)) r"
    using insert_route_put by simp
  with inserted.IH show ?case using pruned_put pruned_iff by blast
next
  case (deleted root pfx len rc root')
  from delete_route_result [OF deleted.hyps(2)] deleted.IH show ?case
    using pruned_del by blast
qed

subsection \<open>The scan of the cache\<close>

lemma cache_scan_find:
  "cache_scan es addr cache_ttl now
     = map_option route (find (\<lambda>e. ip e = addr \<and> now - timestamp e < cache_ttl) es)"
  by (induction es) simp_all

lemma lookup_with_cache_hit:
  "find (\<lambda>e. ip e = addr \<and> now - timestamp e < cache_ttl) (entries cache) = Some e \<Longrightarrow>
   lookup_with_cache root cache addr cache_ttl now = (route e, cache)"
  by (simp add: lookup_with_cache_def cache_scan_find)

lemma lookup_with_cache_miss:
  "find (\<lambda>e. ip e = addr \<and> now - timestamp e < cache_ttl) (entries cache) = None \<Longrightarrow>
   lookup_with_cache root cache addr cache_ttl now =
     (let r = lookup_route_optimized root addr in
      if r \<noteq> None \<and> int (length (entries cache)) < capacity cache
      then (r, cache\<lparr>entries := entries cache @ [\<lparr>ip = addr, route = r, timestamp = now\<rparr>]\<rparr>)
      else (r, cache))"
  by (simp add: lookup_with_cache_def cache_scan_find)

lemma lookup_with_cache_cases:
  assumes "lookup_with_cache root cache addr cache_ttl now = (r, cache')"
  shows "cache' = cache \<or>
         ((\<forall>e \<in> set (entries cache). ip e = addr \<longrightarrow> \<not> now - timestamp e < cache_ttl) \<and>
          r = lookup_route_optimized root addr \<and> r \<noteq> None \<and>
          int (length (entries cache)) < capacity cache \<and>
          cache' = cache\<lparr>entries := entries cache @ [\<lparr>ip = addr, route = r, timestamp = now\<rparr>]\<rparr>)"
proof (cases "find (\<lambda>e. ip e = addr \<and> now - timestamp e < cache_ttl) (entries cache)")
  case (Some e)
  from lookup_with_cache_hit [OF Some] assms show ?thesis by simp
next
  case None
  then have "\<forall>e \<in> set (entries cache). ip e = addr \<longrightarrow> \<not> now - timestamp e < cache_ttl"
    by (auto simp: find_None_iff)
  with lookup_with_cache_miss [OF None, of root] assms show ?thesis
    by (auto simp: Let_def split: if_splits)
qed

lemma reachable_cache_bound:
  "reachable_cache c cache \<Longrightarrow> 0 \<le> c \<Longrightarrow>
   capacity cache = c \<and> int (length (entries cache)) \<le> c"
proof (induction rule: reachable_cache.induct)
  case (created c)
  then show ?case by (simp add: create_route_cache_def)
next
  case (looked_up c cache root addr cache_ttl now r cache')
  from lookup_with_cache_cases [OF looked_up.hyps(2)] looked_up.IH [OF looked_up.prems]
  show ?case by auto
qed

section \<open>The properties of the specification\<close>

subsection \<open>C1: the longest match\<close>

text \<open>
  C1 fails on a route of length 0. The route 0.0.0.0/0 is inserted into the empty trie;
  the call returns 0 and marks the root. The prefix is a bit-prefix of 10.0.0.1 and it is
  the only route, but the lookup of 10.0.0.1 returns nothing.
\<close>

theorem default_route_not_matched:
  "insert_route [] fresh_node route_default
     = Some (0, Node None None (Some route_default) True, []) \<and>
   0 \<le> prefix_len route_default \<and> prefix_len route_default \<le> 32 \<and>
   prefix_matches (prefix route_default) (prefix_len route_default) 0x0A000001 \<and>
   lookup_route_optimized (Node None None (Some route_default) True) 0x0A000001 = None"
  by code_simp

text \<open>
  The longest match among the routes of positive length. Let the trie hold the routes
  \<open>rs\<close>, each inserted with return code 0. If the lookup of an address returns a record,
  the record is one of \<open>rs\<close>, its length is positive, its prefix is a bit-prefix of the
  address, and no route of \<open>rs\<close> whose prefix is a bit-prefix of the address is longer.
  If the lookup returns nothing, no route of \<open>rs\<close> of positive length matches.
\<close>

theorem lookup_longest_match:
  assumes "trie_of_routes rs root"
  shows "case lookup_route_optimized root addr of
           None \<Rightarrow>
             \<forall>r \<in> set rs. 0 < prefix_len r \<longrightarrow> \<not> prefix_matches (prefix r) (prefix_len r) addr
         | Some r \<Rightarrow>
             r \<in> set rs \<and> 0 < prefix_len r \<and> prefix_matches (prefix r) (prefix_len r) addr \<and>
             (\<forall>r' \<in> set rs. prefix_matches (prefix r') (prefix_len r') addr \<longrightarrow>
                 prefix_len r' \<le> prefix_len r)"
proof -
  let ?bs = "addr_bits addr"
  from trie_of_routes_inv [OF assms] have
    rg: "\<forall>r \<in> set rs. 0 \<le> prefix_len r \<and> prefix_len r \<le> 32" and
    A: "\<forall>q n. q \<noteq> [] \<and> walk root q = Some n \<and> is_leaf n \<longrightarrow>
      (\<exists>r \<in> set rs. data n = Some r \<and> route_path (prefix r) (prefix_len r) = q)" and
    B: "\<forall>r \<in> set rs. \<exists>n. walk root (route_path (prefix r) (prefix_len r)) = Some n \<and> is_leaf n"
    by blast+
  \<comment> \<open>a matching route of positive length is a leaf on the path of the address\<close>
  have leaf_of: "\<exists>n. 0 < nat (prefix_len r) \<and> nat (prefix_len r) \<le> length ?bs \<and>
                  walk root (take (nat (prefix_len r)) ?bs) = Some n \<and> is_leaf n"
    if "r \<in> set rs" "0 < prefix_len r" "prefix_matches (prefix r) (prefix_len r) addr" for r
  proof -
    from that(3) have "take (nat (prefix_len r)) ?bs = route_path (prefix r) (prefix_len r)"
      by (simp add: prefix_matches_def route_path_def)
    with B that(1,2) rg show ?thesis by auto
  qed
  from best_on_deepest [of root ?bs None]
  show ?thesis
  proof
    assume a: "best_on root ?bs None = None \<and>
      (\<forall>j n. 0 < j \<and> j \<le> length ?bs \<and> walk root (take j ?bs) = Some n \<longrightarrow> \<not> is_leaf n)"
    then have "\<not> prefix_matches (prefix r) (prefix_len r) addr"
      if "r \<in> set rs" "0 < prefix_len r" for r
      using leaf_of [OF that] by blast
    with a show ?thesis by (simp add: lookup_best_on)
  next
    assume "\<exists>k n. 0 < k \<and> k \<le> length ?bs \<and> walk root (take k ?bs) = Some n \<and> is_leaf n \<and>
          data n = best_on root ?bs None \<and>
          (\<forall>j m. k < j \<and> j \<le> length ?bs \<and> walk root (take j ?bs) = Some m \<longrightarrow> \<not> is_leaf m)"
    then obtain k n where k: "0 < k" "k \<le> length ?bs" "walk root (take k ?bs) = Some n"
      "is_leaf n" "data n = best_on root ?bs None"
      and deep: "\<forall>j m. k < j \<and> j \<le> length ?bs \<and> walk root (take j ?bs) = Some m \<longrightarrow> \<not> is_leaf m"
      by blast
    have "length (take k ?bs) = k" using k(2) by simp
    with k(1) have ne: "take k ?bs \<noteq> []" by (metis length_0_conv less_numeral_extra(3))
    with A k(3,4) obtain r where r: "r \<in> set rs" "data n = Some r"
      "route_path (prefix r) (prefix_len r) = take k ?bs" by blast
    from r(1) rg have rr: "0 \<le> prefix_len r" "prefix_len r \<le> 32" by auto
    from r(3) have "length (route_path (prefix r) (prefix_len r)) = length (take k ?bs)" by simp
    with k(2) rr have len: "nat (prefix_len r) = k" by (simp add: route_path_def)
    with k(1) have pos: "0 < prefix_len r" by simp
    from r(3) len have m: "prefix_matches (prefix r) (prefix_len r) addr"
      by (simp add: prefix_matches_def route_path_def)
    have mx: "prefix_len r' \<le> prefix_len r"
      if "r' \<in> set rs" "prefix_matches (prefix r') (prefix_len r') addr" for r'
    proof (cases "0 < prefix_len r'")
      case False
      with pos show ?thesis by simp
    next
      case True
      from leaf_of [OF that(1) True that(2)] deep have "\<not> k < nat (prefix_len r')" by blast
      with len pos True show ?thesis by linarith
    qed
    from k(5) r(2) have "lookup_route_optimized root addr = Some r" by (simp add: lookup_best_on)
    with r(1) pos m mx show ?thesis by simp
  qed
qed

theorem lookup_longest_match_witness:
  "trie_of_routes [route_10_8, route_10_0_1_24] trie_10_8_24 \<and>
   lookup_route_optimized trie_10_8_24 0x0A000105 = Some route_10_0_1_24 \<and>
   prefix_matches (prefix route_10_8) (prefix_len route_10_8) 0x0A000105 \<and>
   prefix_len route_10_8 \<le> prefix_len route_10_0_1_24 \<and>
   lookup_route_optimized trie_10_8_24 0x0A020304 = Some route_10_8 \<and>
   lookup_route_optimized trie_10_8_24 0xC0A80101 = None \<and>
   \<not> prefix_matches (prefix route_10_8) (prefix_len route_10_8) 0xC0A80101"
proof -
  have i1: "insert_route plenty fresh_node route_10_8 = Some (0, trie_10_8, replicate 56 True)"
    by code_simp
  have i2: "insert_route plenty trie_10_8 route_10_0_1_24
              = Some (0, trie_10_8_24, replicate 48 True)"
    by code_simp
  have t: "trie_of_routes [route_10_8, route_10_0_1_24] trie_10_8_24"
    using trie_of_routes.snoc [OF trie_of_routes.snoc [OF trie_of_routes.none i1] i2] by simp
  have l1: "lookup_route_optimized trie_10_8_24 0x0A000105 = Some route_10_0_1_24" by code_simp
  have l2: "lookup_route_optimized trie_10_8_24 0x0A020304 = Some route_10_8" by code_simp
  have l3: "lookup_route_optimized trie_10_8_24 0xC0A80101 = None" by code_simp
  have m: "prefix_matches (prefix route_10_8) (prefix_len route_10_8) 0x0A000105" by code_simp
  from lookup_longest_match [OF t, of "0x0A000105"] l1 m
  have a: "prefix_len route_10_8 \<le> prefix_len route_10_0_1_24" by simp
  have p: "0 < prefix_len route_10_8" by (simp add: route_10_8_def)
  from lookup_longest_match [OF t, of "0xC0A80101"] l3 p
  have b: "\<not> prefix_matches (prefix route_10_8) (prefix_len route_10_8) 0xC0A80101" by simp
  from t l1 m a l2 l3 b show ?thesis by (intro conjI)
qed

subsection \<open>C2: insertion followed by deletion\<close>

text \<open>
  C2, as amended. Let \<open>insert_route\<close> return 0 for a route whose exact node, when below
  the root, was absent or not a leaf before the call. Then \<open>delete_route\<close> of the same
  prefix and length returns 0, and afterwards every address looks up to what it looked up
  to before the insertion.
\<close>

theorem insert_delete_roundtrip:
  assumes "insert_route h root r = Some (0, root1, h1)"
    and "route_path (prefix r) (prefix_len r) = [] \<or>
         (case walk root (route_path (prefix r) (prefix_len r)) of
            None \<Rightarrow> True | Some n \<Rightarrow> \<not> is_leaf n)"
  shows "\<exists>root2. delete_route root1 (prefix r) (prefix_len r) = Some (0, root2) \<and>
           (\<forall>addr. lookup_route_optimized root2 addr = lookup_route_optimized root addr)"
proof -
  let ?p = "route_path (prefix r) (prefix_len r)"
  from insert_route_put [OF assms(1)] have r1: "root1 = put root ?p r" .
  from insert_route_range [OF assms(1)] have rg: "0 \<le> prefix_len r" "prefix_len r \<le> 32"
    by simp_all
  from walk_put_end [of root ?p r] obtain n' where
    n': "walk root1 ?p = Some n'" "is_leaf n'" unfolding r1 by blast
  from delete_route_del [OF rg, of root1 "prefix r"] n'
  have d: "delete_route root1 (prefix r) (prefix_len r) = Some (0, del root1 ?p)" by simp
  have "best_on (del (put root ?p r) ?p) xs best = best_on root xs best" for xs best
  proof (cases "?p = []")
    case True
    have "best_on (del (put root [] r) []) xs best = best_on root xs best"
      by (rule best_on_children_cong) simp_all
    with True show ?thesis by simp
  next
    case False
    with assms(2) have "case walk root ?p of None \<Rightarrow> True | Some n \<Rightarrow> \<not> is_leaf n" by simp
    from del_put_view [OF this] show ?thesis by simp
  qed
  then have "\<forall>addr. lookup_route_optimized (del root1 ?p) addr = lookup_route_optimized root addr"
    by (simp add: lookup_best_on r1)
  with d show ?thesis by blast
qed

theorem insert_delete_roundtrip_witness:
  "insert_route plenty trie_10_8 route_10_0_1_24 = Some (0, trie_10_8_24, replicate 48 True) \<and>
   walk trie_10_8 (route_path (prefix route_10_0_1_24) (prefix_len route_10_0_1_24)) = None \<and>
   (\<exists>root2. delete_route trie_10_8_24 (prefix route_10_0_1_24) (prefix_len route_10_0_1_24)
               = Some (0, root2) \<and>
            lookup_route_optimized root2 0x0A000105 = Some route_10_8) \<and>
   lookup_route_optimized trie_10_8_24 0x0A000105 = Some route_10_0_1_24"
proof -
  have i: "insert_route plenty trie_10_8 route_10_0_1_24
             = Some (0, trie_10_8_24, replicate 48 True)"
    by code_simp
  have w: "walk trie_10_8 (route_path (prefix route_10_0_1_24) (prefix_len route_10_0_1_24)) = None"
    by code_simp
  then have h: "route_path (prefix route_10_0_1_24) (prefix_len route_10_0_1_24) = [] \<or>
         (case walk trie_10_8 (route_path (prefix route_10_0_1_24) (prefix_len route_10_0_1_24)) of
            None \<Rightarrow> True | Some n \<Rightarrow> \<not> is_leaf n)"
    by simp
  have l: "lookup_route_optimized trie_10_8 0x0A000105 = Some route_10_8" by code_simp
  have l2: "lookup_route_optimized trie_10_8_24 0x0A000105 = Some route_10_0_1_24" by code_simp
  from insert_delete_roundtrip [OF i h] l
  have "\<exists>root2. delete_route trie_10_8_24 (prefix route_10_0_1_24) (prefix_len route_10_0_1_24)
               = Some (0, root2) \<and>
            lookup_route_optimized root2 0x0A000105 = Some route_10_8"
    by auto
  with i w l2 show ?thesis by (intro conjI)
qed

text \<open>
  C2 as stated fails when the insertion overwrites a route. The trie holds 10.0.0.0/8 and
  10.1.2.3 looks up to it. A second record for 10.0.0.0/8 is inserted and then deleted:
  both calls return 0, the trie is empty, and 10.1.2.3 looks up to nothing.
\<close>

theorem insert_delete_roundtrip_counterexample:
  "lookup_route_optimized trie_10_8 0x0A010203 = Some route_10_8 \<and>
   insert_route plenty trie_10_8 route_10_8_alt = Some (0, trie_10_8_alt, plenty) \<and>
   delete_route trie_10_8_alt (prefix route_10_8_alt) (prefix_len route_10_8_alt)
     = Some (0, fresh_node) \<and>
   lookup_route_optimized fresh_node 0x0A010203 = None"
  by code_simp

subsection \<open>C3: a second record for the same prefix\<close>

text \<open>
  C3, as amended. Two records for the same prefix and length are inserted one after the
  other, the first insertion returning 0. Then the second insertion returns 0 without
  allocating, and the trie is the one that inserting the second record alone would have
  given: the exact node is a leaf that holds the second record. For a length of at least
  1, an address that the prefix matches looks up to the second record, unless the trie
  held a leaf deeper on the path of the address, in which case the lookup returns what it
  returned before the two insertions.
\<close>

theorem overwrite_last_writer_wins:
  assumes "prefix r2 = prefix r1" and "prefix_len r2 = prefix_len r1"
    and "insert_route h root r1 = Some (0, root1, h1)"
    and "insert_route h1 root1 r2 = Some (rc, root2, h2)"
  shows "rc = 0 \<and> h2 = h1 \<and>
         (\<forall>h' t h''. insert_route h' root r2 = Some (0, t, h'') \<longrightarrow> t = root2) \<and>
         (\<exists>n. walk root2 (route_path (prefix r2) (prefix_len r2)) = Some n \<and>
              is_leaf n \<and> data n = Some r2) \<and>
         (\<forall>addr. 0 < prefix_len r2 \<and> prefix_matches (prefix r2) (prefix_len r2) addr \<longrightarrow>
            lookup_route_optimized root2 addr =
              (if leaf_below root addr (prefix_len r2) then lookup_route_optimized root addr
               else Some r2))"
proof -
  let ?p = "route_path (prefix r2) (prefix_len r2)"
  have p1: "route_path (prefix r1) (prefix_len r1) = ?p" using assms(1,2) by simp
  from insert_route_put [OF assms(3)] p1 have r1: "root1 = put root ?p r1" by simp
  from insert_route_range [OF assms(4)] have rg: "0 \<le> prefix_len r2" "prefix_len r2 \<le> 32"
    by simp_all
  then obtain binary where b: "ip_to_binary (prefix r2) (prefix_len r2) = Some binary"
    using ip_to_binary_Some by blast
  then have bb: "binary_bits binary = ?p" by (simp add: ip_to_binary_bits route_path_def)
  from walk_put_end [of root ?p r1] have "walk root1 (binary_bits binary) \<noteq> None"
    unfolding r1 bb by auto
  from insert_loop_existing [OF this, of h1 r2]
  have "insert_loop h1 root1 binary r2 = (0, put root ?p r2, h1)"
    by (simp add: bb r1 put_put)
  with assms(4) b have res: "rc = 0" "h2 = h1" "root2 = put root ?p r2"
    by (simp_all add: insert_route_def)
  have 3: "\<forall>h' t h''. insert_route h' root r2 = Some (0, t, h'') \<longrightarrow> t = root2"
    using insert_route_put res(3) by blast
  have 4: "\<exists>n. walk root2 ?p = Some n \<and> is_leaf n \<and> data n = Some r2"
    using walk_put_end [of root ?p r2] res(3) by blast
  have 5: "\<forall>addr. 0 < prefix_len r2 \<and> prefix_matches (prefix r2) (prefix_len r2) addr \<longrightarrow>
            lookup_route_optimized root2 addr =
              (if leaf_below root addr (prefix_len r2) then lookup_route_optimized root addr
               else Some r2)"
  proof (intro allI impI)
    fix addr
    assume a: "0 < prefix_len r2 \<and> prefix_matches (prefix r2) (prefix_len r2) addr"
    let ?n = "nat (prefix_len r2)"
    let ?rest = "drop ?n (addr_bits addr)"
    from a have t: "take ?n (addr_bits addr) = ?p"
      by (simp add: prefix_matches_def route_path_def)
    then have ab: "addr_bits addr = ?p @ ?rest"
      by (metis append_take_drop_id)
    from a rg have ne: "?p \<noteq> []"
      using length_route_path [OF rg, of "prefix r2"] by auto
    have "lookup_route_optimized root2 addr = best_on (put root ?p r2) (?p @ ?rest) None"
      using ab by (simp add: lookup_best_on res(3))
    also have "\<dots> = (case walk root ?p of
              None \<Rightarrow> Some r2
            | Some n \<Rightarrow> if has_leaf_on n ?rest then best_on root (?p @ ?rest) None else Some r2)"
      by (rule put_lookup [OF ne])
    also have "\<dots> = (if leaf_below root addr (prefix_len r2) then lookup_route_optimized root addr
               else Some r2)"
      using ab by (simp add: leaf_below_def t lookup_best_on split: option.splits)
    finally show "lookup_route_optimized root2 addr =
              (if leaf_below root addr (prefix_len r2) then lookup_route_optimized root addr
               else Some r2)" .
  qed
  from res(1,2) 3 4 5 show ?thesis by (intro conjI)
qed

theorem overwrite_last_writer_wins_witness:
  "prefix route_10_8_alt = prefix route_10_8 \<and> prefix_len route_10_8_alt = prefix_len route_10_8 \<and>
   insert_route plenty trie_24_left route_10_8 = Some (0, trie_10_8_24, plenty) \<and>
   insert_route plenty trie_10_8_24 route_10_8_alt = Some (0, trie_alt_24, plenty) \<and>
   0 < prefix_len route_10_8_alt \<and>
   prefix_matches (prefix route_10_8_alt) (prefix_len route_10_8_alt) 0x0A010203 \<and>
   \<not> leaf_below trie_24_left 0x0A010203 (prefix_len route_10_8_alt) \<and>
   lookup_route_optimized trie_alt_24 0x0A010203 = Some route_10_8_alt \<and>
   prefix_matches (prefix route_10_8_alt) (prefix_len route_10_8_alt) 0x0A000105 \<and>
   leaf_below trie_24_left 0x0A000105 (prefix_len route_10_8_alt) \<and>
   lookup_route_optimized trie_alt_24 0x0A000105 = lookup_route_optimized trie_24_left 0x0A000105"
proof -
  have e: "prefix route_10_8_alt = prefix route_10_8" "prefix_len route_10_8_alt = prefix_len route_10_8"
    by (simp_all add: route_10_8_def route_10_8_alt_def)
  have i1: "insert_route plenty trie_24_left route_10_8 = Some (0, trie_10_8_24, plenty)"
    by code_simp
  have i2: "insert_route plenty trie_10_8_24 route_10_8_alt = Some (0, trie_alt_24, plenty)"
    by code_simp
  have l: "0 < prefix_len route_10_8_alt" by (simp add: route_10_8_alt_def)
  have m1: "prefix_matches (prefix route_10_8_alt) (prefix_len route_10_8_alt) 0x0A010203"
    by code_simp
  have m2: "prefix_matches (prefix route_10_8_alt) (prefix_len route_10_8_alt) 0x0A000105"
    by code_simp
  have b1: "\<not> leaf_below trie_24_left 0x0A010203 (prefix_len route_10_8_alt)"
    by code_simp
  have b2: "leaf_below trie_24_left 0x0A000105 (prefix_len route_10_8_alt)"
    by code_simp
  note t = overwrite_last_writer_wins [OF e i1 i2]
  from t l m1 b1 have a1: "lookup_route_optimized trie_alt_24 0x0A010203 = Some route_10_8_alt"
    by simp
  from t l m2 b2
  have a2: "lookup_route_optimized trie_alt_24 0x0A000105 = lookup_route_optimized trie_24_left 0x0A000105"
    by simp
  from e i1 i2 l m1 b1 a1 m2 b2 a2 show ?thesis by (intro conjI)
qed

text \<open>
  C3 as stated fails when a longer route matches. The trie holds 10.0.1.0/24; two records
  for 10.0.0.0/8 are inserted, both calls returning 0. The address 10.0.1.5 is matched by
  10.0.0.0/8, and its lookup returns the record of 10.0.1.0/24, not the second record.
\<close>

theorem overwrite_last_writer_wins_counterexample:
  "insert_route plenty trie_24_left route_10_8 = Some (0, trie_10_8_24, plenty) \<and>
   insert_route plenty trie_10_8_24 route_10_8_alt = Some (0, trie_alt_24, plenty) \<and>
   prefix route_10_8_alt = prefix route_10_8 \<and> prefix_len route_10_8_alt = prefix_len route_10_8 \<and>
   route_10_8_alt \<noteq> route_10_8 \<and>
   prefix_matches (prefix route_10_8_alt) (prefix_len route_10_8_alt) 0x0A000105 \<and>
   lookup_route_optimized trie_alt_24 0x0A000105 = Some route_10_0_1_24 \<and>
   route_10_0_1_24 \<noteq> route_10_8_alt"
  by code_simp

subsection \<open>C4: the pruning invariant\<close>

text \<open>
  C4, as amended. From the empty trie, after any sequence of \<open>insert_route\<close> calls that
  all returned 0 and of \<open>delete_route\<close> calls, no node other than the root is both not
  a leaf and childless.
\<close>

theorem pruning_invariant:
  assumes "trie_after_ops False root" and "walk root q = Some n" and "q \<noteq> []"
  shows "is_leaf n \<or> children n False \<noteq> None \<or> children n True \<noteq> None"
  using pruned_below_walk [OF trie_after_ops_pruned_below [OF assms(1)] assms(2,3)]
  by (simp add: dead_def)

theorem pruning_invariant_witness:
  "trie_after_ops False trie_24_left \<and>
   route_path 0x0A000000 8 \<noteq> [] \<and>
   (case walk trie_24_left (route_path 0x0A000000 8) of
      None \<Rightarrow> False
    | Some n \<Rightarrow> \<not> is_leaf n \<and> children n True = None \<and> children n False \<noteq> None)"
proof -
  have i1: "insert_route plenty fresh_node route_10_8 = Some (0, trie_10_8, replicate 56 True)"
    by code_simp
  have i2: "insert_route plenty trie_10_8 route_10_0_1_24
              = Some (0, trie_10_8_24, replicate 48 True)"
    by code_simp
  have d: "delete_route trie_10_8_24 0x0A000000 8 = Some (0, trie_24_left)"
    by code_simp
  have r1: "trie_after_ops False trie_10_8"
    by (rule trie_after_ops.inserted [OF trie_after_ops.empty i1]) simp
  have r2: "trie_after_ops False trie_10_8_24"
    by (rule trie_after_ops.inserted [OF r1 i2]) simp
  have r3: "trie_after_ops False trie_24_left"
    by (rule trie_after_ops.deleted [OF r2 d])
  have p: "route_path 0x0A000000 8 \<noteq> []" by code_simp
  have w: "case walk trie_24_left (route_path 0x0A000000 8) of
             None \<Rightarrow> False | Some n \<Rightarrow> \<not> is_leaf n \<and> children n True = None"
    by code_simp
  then obtain n where n: "walk trie_24_left (route_path 0x0A000000 8) = Some n"
    "\<not> is_leaf n" "children n True = None"
    by (auto split: option.splits)
  from pruning_invariant [OF r3 n(1) p] n(2,3) have "children n False \<noteq> None" by simp
  with n have "case walk trie_24_left (route_path 0x0A000000 8) of
      None \<Rightarrow> False
    | Some n \<Rightarrow> \<not> is_leaf n \<and> children n True = None \<and> children n False \<noteq> None"
    by simp
  with r3 p show ?thesis by (intro conjI)
qed

text \<open>
  C4 as stated fails twice. The root of the empty trie, before any operation, is neither
  a leaf nor the parent of a child. And an \<open>insert_route\<close> of 10.0.0.0/8 into the empty
  trie whose second allocation fails returns -1 and leaves the node for the first bit in
  the trie, which is neither a leaf nor the parent of a child.
\<close>

theorem pruning_invariant_counterexample:
  "trie_after_ops False fresh_node \<and> walk fresh_node [] = Some fresh_node \<and>
   \<not> is_leaf fresh_node \<and> children fresh_node False = None \<and> children fresh_node True = None \<and>
   insert_route [True, False] fresh_node route_10_8
     = Some (- 1, Node (Some fresh_node) None None False, []) \<and>
   trie_after_ops True (Node (Some fresh_node) None None False) \<and>
   walk (Node (Some fresh_node) None None False) [False] = Some fresh_node"
proof -
  have i: "insert_route [True, False] fresh_node route_10_8
             = Some (- 1, Node (Some fresh_node) None None False, [])"
    by code_simp
  have r: "trie_after_ops True (Node (Some fresh_node) None None False)"
    by (rule trie_after_ops.inserted [OF trie_after_ops.empty i]) simp
  have w: "walk (Node (Some fresh_node) None None False) [False] = Some fresh_node"
    by code_simp
  have e: "trie_after_ops False fresh_node" by (rule trie_after_ops.empty)
  from e i r w show ?thesis by simp
qed

subsection \<open>C5: when delete\_route fails and what it leaves\<close>

text \<open>
  C5. For a length in 0..32, \<open>delete_route\<close> returns -1 (not found) exactly when the
  walk along the bits of the prefix meets a missing child or ends in a node that is not a
  leaf, and then the trie is unchanged. Otherwise it returns 0, and the terminal node has
  its leaf flag and record cleared: after the call the path leads to that cleared node,
  or to nothing when the cleared node was childless below the root and has been freed; in
  both cases no leaf is left at the end of the path.
\<close>

theorem delete_route_not_found_iff:
  assumes "0 \<le> len" and "len \<le> 32"
  shows "\<exists>rc root'. delete_route root pfx len = Some (rc, root') \<and> (rc = 0 \<or> rc = - 1) \<and>
           ((rc = - 1) = (case walk root (route_path pfx len) of
                            None \<Rightarrow> True | Some n \<Rightarrow> \<not> is_leaf n)) \<and>
           (rc = - 1 \<longrightarrow> root' = root) \<and>
           (rc = 0 \<longrightarrow>
              (\<exists>n. walk root (route_path pfx len) = Some n \<and>
                   walk root' (route_path pfx len)
                     = (if route_path pfx len = [] \<or> \<not> dead (clear_node n)
                        then Some (set_data (set_is_leaf n False) None) else None)) \<and>
              (case walk root' (route_path pfx len) of
                 None \<Rightarrow> True | Some n' \<Rightarrow> \<not> is_leaf n' \<and> data n' = None))"
proof -
  let ?p = "route_path pfx len"
  note dr = delete_route_del [OF assms, of root pfx]
  show ?thesis
  proof (cases "walk root ?p")
    case None
    with dr have "delete_route root pfx len = Some (- 1, root)" by simp
    with None show ?thesis by simp
  next
    case (Some n)
    show ?thesis
    proof (cases "is_leaf n")
      case False
      with dr Some have "delete_route root pfx len = Some (- 1, root)" by simp
      with Some False show ?thesis by simp
    next
      case True
      with dr Some have d: "delete_route root pfx len = Some (0, del root ?p)" by simp
      have w: "walk (del root ?p) ?p
              = (if ?p = [] \<or> \<not> dead (clear_node n) then Some (clear_node n) else None)"
        by (rule walk_del [OF Some])
      have c: "\<not> is_leaf (clear_node n) \<and> data (clear_node n) = None"
        by (simp add: clear_node_def)
      have "case walk (del root ?p) ?p of None \<Rightarrow> True | Some n' \<Rightarrow> \<not> is_leaf n' \<and> data n' = None"
        unfolding w using c by simp
      with d w Some True show ?thesis
        unfolding clear_node_def by simp
    qed
  qed
qed

theorem delete_route_not_found_iff_witness:
  "(0::int) \<le> 8 \<and> (8::int) \<le> 32 \<and>
   delete_route trie_10_8 0x0A000000 8 = Some (0, fresh_node) \<and>
   walk fresh_node (route_path 0x0A000000 8) = None \<and>
   delete_route trie_10_8 0x0A000000 7 = Some (- 1, trie_10_8) \<and>
   (\<exists>n. walk trie_10_8 (route_path 0x0A000000 7) = Some n \<and> \<not> is_leaf n) \<and>
   delete_route trie_10_8 0x0B000000 8 = Some (- 1, trie_10_8) \<and>
   walk trie_10_8 (route_path 0x0B000000 8) = None"
proof -
  have h: "(0::int) \<le> 8" "(8::int) \<le> 32" "(0::int) \<le> 7" "(7::int) \<le> 32" by simp_all
  have "case walk trie_10_8 (route_path 0x0A000000 8) of
          None \<Rightarrow> False | Some n \<Rightarrow> is_leaf n \<and> dead (clear_node n)"
    by code_simp
  then have w1: "\<exists>n. walk trie_10_8 (route_path 0x0A000000 8) = Some n \<and> is_leaf n \<and> dead (clear_node n)"
    by (simp split: option.splits)
  have "case walk trie_10_8 (route_path 0x0A000000 7) of
          None \<Rightarrow> False | Some n \<Rightarrow> \<not> is_leaf n"
    by code_simp
  then have w2: "\<exists>n. walk trie_10_8 (route_path 0x0A000000 7) = Some n \<and> \<not> is_leaf n"
    by (simp split: option.splits)
  have w3: "walk trie_10_8 (route_path 0x0B000000 8) = None"
    by code_simp
  have e: "route_path 0x0A000000 8 \<noteq> []" by code_simp
  from delete_route_not_found_iff [OF h(1,2), of trie_10_8 "0x0A000000"] w1 e
  obtain root' where d1: "delete_route trie_10_8 0x0A000000 8 = Some (0, root')"
    and r1: "walk root' (route_path 0x0A000000 8) = None"
    by auto
  have "delete_route trie_10_8 0x0A000000 8 = Some (0, fresh_node)" by code_simp
  with d1 r1 have a: "delete_route trie_10_8 0x0A000000 8 = Some (0, fresh_node)"
    "walk fresh_node (route_path 0x0A000000 8) = None" by simp_all
  from delete_route_not_found_iff [OF h(3,4), of trie_10_8 "0x0A000000"] w2
  have b: "delete_route trie_10_8 0x0A000000 7 = Some (- 1, trie_10_8)" by auto
  from delete_route_not_found_iff [OF h(1,2), of trie_10_8 "0x0B000000"] w3
  have c: "delete_route trie_10_8 0x0B000000 8 = Some (- 1, trie_10_8)" by auto
  from h a b c w2 w3 show ?thesis by (intro conjI)
qed

subsection \<open>C6: the time-to-live of a cache entry\<close>

text \<open>
  C6. If the cache holds an entry for the address that is younger than the time-to-live,
  \<open>lookup_with_cache\<close> returns the route of such an entry, the first one in the array,
  and leaves the cache as it is, whatever the trie: the trie is not consulted. If no
  entry for the address is younger than the time-to-live, the result is the one of
  \<open>lookup_route_optimized\<close> on the trie.
\<close>

theorem cache_ttl_semantics:
  "((\<exists>e \<in> set (entries cache). ip e = addr \<and> now - timestamp e < cache_ttl) \<longrightarrow>
      (\<exists>e \<in> set (entries cache). ip e = addr \<and> now - timestamp e < cache_ttl \<and>
          find (\<lambda>e. ip e = addr \<and> now - timestamp e < cache_ttl) (entries cache) = Some e \<and>
          (\<forall>root. lookup_with_cache root cache addr cache_ttl now = (route e, cache)))) \<and>
   ((\<forall>e \<in> set (entries cache). ip e = addr \<longrightarrow> \<not> now - timestamp e < cache_ttl) \<longrightarrow>
      fst (lookup_with_cache root cache addr cache_ttl now) = lookup_route_optimized root addr)"
proof (intro conjI impI)
  let ?P = "\<lambda>e. ip e = addr \<and> now - timestamp e < cache_ttl"
  assume "\<exists>e \<in> set (entries cache). ?P e"
  then obtain e where e: "find ?P (entries cache) = Some e"
    by (cases "find ?P (entries cache)") (auto simp: find_None_iff)
  then have "e \<in> set (entries cache)" and "?P e"
    by (auto simp: find_Some_iff)
  with e lookup_with_cache_hit [OF e]
  show "\<exists>e \<in> set (entries cache). ip e = addr \<and> now - timestamp e < cache_ttl \<and>
          find ?P (entries cache) = Some e \<and>
          (\<forall>root. lookup_with_cache root cache addr cache_ttl now = (route e, cache))"
    by blast
next
  let ?P = "\<lambda>e. ip e = addr \<and> now - timestamp e < cache_ttl"
  assume "\<forall>e \<in> set (entries cache). ip e = addr \<longrightarrow> \<not> now - timestamp e < cache_ttl"
  then have "find ?P (entries cache) = None" by (auto simp: find_None_iff)
  from lookup_with_cache_miss [OF this]
  show "fst (lookup_with_cache root cache addr cache_ttl now) = lookup_route_optimized root addr"
    by (simp add: Let_def)
qed

theorem cache_ttl_semantics_witness:
  "(\<exists>e \<in> set (entries cache_one). ip e = 0x0A000105 \<and> 130 - timestamp e < 60) \<and>
   lookup_with_cache fresh_node cache_one 0x0A000105 60 130 = (Some route_10_8, cache_one) \<and>
   filter (\<lambda>e. ip e = 0x0A000105 \<and> 200 - timestamp e < 60) (entries cache_one) = [] \<and>
   fst (lookup_with_cache trie_10_8_24 cache_one 0x0A000105 60 200) = Some route_10_0_1_24"
proof -
  have h1: "\<exists>e \<in> set (entries cache_one). ip e = 0x0A000105 \<and> 130 - timestamp e < 60"
    by (simp add: cache_one_def)
  have h2: "\<forall>e \<in> set (entries cache_one). ip e = 0x0A000105 \<longrightarrow> \<not> 200 - timestamp e < 60"
    by (simp add: cache_one_def)
  have f: "find (\<lambda>e. ip e = 0x0A000105 \<and> 130 - timestamp e < 60) (entries cache_one)
             = Some \<lparr>ip = 0x0A000105, route = Some route_10_8, timestamp = 100\<rparr>"
    by (simp add: cache_one_def)
  from cache_ttl_semantics [of cache_one "0x0A000105" 130 60] h1 f
  have a: "lookup_with_cache fresh_node cache_one 0x0A000105 60 130 = (Some route_10_8, cache_one)"
    by auto
  have l: "lookup_route_optimized trie_10_8_24 0x0A000105 = Some route_10_0_1_24"
    by code_simp
  from cache_ttl_semantics [of cache_one "0x0A000105" 200 60 trie_10_8_24] h2 l
  have b: "fst (lookup_with_cache trie_10_8_24 cache_one 0x0A000105 60 200) = Some route_10_0_1_24"
    by simp
  have h2': "filter (\<lambda>e. ip e = 0x0A000105 \<and> 200 - timestamp e < 60) (entries cache_one) = []"
    by (simp add: cache_one_def)
  from h1 a h2' b show ?thesis by (intro conjI)
qed

subsection \<open>C7: the capacity of the cache\<close>

text \<open>
  C7. Let a cache be created with a capacity \<open>c \<ge> 0\<close> and used by any sequence of
  calls of \<open>lookup_with_cache\<close>. Then it never holds more than \<open>c\<close> entries, before
  and after any further call. A call on a cache that holds \<open>c\<close> entries leaves it as it
  is. Whenever a call changes the cache, the cache was below capacity, the call missed,
  the trie lookup returned a route, and the change is that one entry for this address,
  route and time is appended; the entries stored before are all kept in their places.
\<close>

theorem cache_capacity_bound:
  assumes "reachable_cache c cache" and "0 \<le> c"
    and "lookup_with_cache root cache addr cache_ttl now = (r, cache')"
  shows "capacity cache = c \<and>
         int (length (entries cache)) \<le> c \<and> int (length (entries cache')) \<le> c \<and>
         (int (length (entries cache)) = c \<longrightarrow> cache' = cache) \<and>
         (cache' \<noteq> cache \<longrightarrow>
            int (length (entries cache)) < c \<and> r \<noteq> None \<and>
            r = lookup_route_optimized root addr \<and>
            entries cache' = entries cache @ [\<lparr>ip = addr, route = r, timestamp = now\<rparr>]) \<and>
         take (length (entries cache)) (entries cache') = entries cache"
proof -
  from reachable_cache_bound [OF assms(1,2)]
  have 1: "capacity cache = c" "int (length (entries cache)) \<le> c" by simp_all
  have "reachable_cache c cache'"
    by (rule reachable_cache.looked_up [OF assms(1,3)])
  from reachable_cache_bound [OF this assms(2)]
  have 2: "int (length (entries cache')) \<le> c" by simp
  from lookup_with_cache_cases [OF assms(3)] 1
  have 3: "int (length (entries cache)) = c \<longrightarrow> cache' = cache"
    and 4: "cache' \<noteq> cache \<longrightarrow>
            int (length (entries cache)) < c \<and> r \<noteq> None \<and>
            r = lookup_route_optimized root addr \<and>
            entries cache' = entries cache @ [\<lparr>ip = addr, route = r, timestamp = now\<rparr>]"
    and 5: "take (length (entries cache)) (entries cache') = entries cache"
    by auto
  from 1 2 3 4 5 show ?thesis by (intro conjI)
qed

theorem cache_capacity_bound_witness:
  "reachable_cache 1 (create_route_cache 1) \<and> reachable_cache 1 cache_full \<and> (0::int) \<le> 1 \<and>
   lookup_with_cache trie_10_8_24 (create_route_cache 1) 0x0A000105 60 100
     = (Some route_10_0_1_24, cache_full) \<and>
   cache_full \<noteq> create_route_cache 1 \<and>
   int (length (entries (create_route_cache 1))) < 1 \<and>
   entries cache_full = entries (create_route_cache 1) @
     [\<lparr>ip = 0x0A000105, route = Some route_10_0_1_24, timestamp = 100\<rparr>] \<and>
   lookup_with_cache trie_10_8_24 cache_full 0x0A020304 60 100 = (Some route_10_8, cache_full) \<and>
   int (length (entries cache_full)) = 1"
proof -
  have r0: "reachable_cache 1 (create_route_cache 1)"
    by (rule reachable_cache.created)
  have e1: "lookup_with_cache trie_10_8_24 (create_route_cache 1) 0x0A000105 60 100
              = (Some route_10_0_1_24, cache_full)"
    by code_simp
  have r1: "reachable_cache 1 cache_full"
    by (rule reachable_cache.looked_up [OF r0 e1])
  have p: "(0::int) \<le> 1" by simp
  have n: "cache_full \<noteq> create_route_cache 1"
    by (simp add: cache_full_def create_route_cache_def)
  from cache_capacity_bound [OF r0 p e1] n
  have a: "int (length (entries (create_route_cache 1))) < 1"
    and b: "entries cache_full = entries (create_route_cache 1) @
              [\<lparr>ip = 0x0A000105, route = Some route_10_0_1_24, timestamp = 100\<rparr>]"
    by simp_all
  have l: "int (length (entries cache_full)) = 1" by (simp add: cache_full_def)
  obtain r c' where e2: "lookup_with_cache trie_10_8_24 cache_full 0x0A020304 60 100 = (r, c')"
    by (cases "lookup_with_cache trie_10_8_24 cache_full 0x0A020304 60 100")
  from cache_capacity_bound [OF r1 p e2] l have "c' = cache_full" by simp
  moreover have "fst (lookup_with_cache trie_10_8_24 cache_full 0x0A020304 60 100) = Some route_10_8"
    by code_simp
  ultimately have c: "lookup_with_cache trie_10_8_24 cache_full 0x0A020304 60 100
                        = (Some route_10_8, cache_full)"
    using e2 by simp
  from r0 r1 p e1 n a b c l show ?thesis by (intro conjI)
qed

subsection \<open>C8: an insertion that runs out of memory\<close>

text \<open>
  C8. When \<open>insert_route\<close> does not return 0 it returns -1, and the trie it leaves is
  the old trie with fresh nodes linked along the first \<open>k\<close> bits of the route's path,
  for some \<open>k\<close> below the prefix length. Every node of the old trie is still there with
  its leaf flag and record; every node that was not there is as \<open>create_trie_node\<close>
  makes it (no record, leaf flag clear) with at most the one child that continues the
  path; every lookup returns what it returned before; and a later \<open>insert_route\<close> with
  a length in 0..32 returns.
\<close>

theorem partial_insert_safe:
  assumes "insert_route h root r = Some (rc, root', h')" and "rc \<noteq> 0"
  shows "rc = - 1 \<and>
         (\<exists>k < nat (prefix_len r).
             root' = grow root (take k (route_path (prefix r) (prefix_len r)))) \<and>
         (\<forall>q n. walk root q = Some n \<longrightarrow>
            (\<exists>n'. walk root' q = Some n' \<and> is_leaf n' = is_leaf n \<and> data n' = data n)) \<and>
         (\<forall>q n'. walk root' q = Some n' \<and> walk root q = None \<longrightarrow>
            \<not> is_leaf n' \<and> data n' = None \<and>
            (children n' False = None \<or> children n' True = None)) \<and>
         (\<forall>addr. lookup_route_optimized root' addr = lookup_route_optimized root addr) \<and>
         (\<forall>h2 r2. 0 \<le> prefix_len r2 \<and> prefix_len r2 \<le> 32 \<longrightarrow>
            (\<exists>res. insert_route h2 root' r2 = Some res))"
proof -
  from assms(1) obtain binary where
    b: "ip_to_binary (prefix r) (prefix_len r) = Some binary"
    and il: "insert_loop h root binary r = (rc, root', h')"
    by (auto simp: insert_route_def split: option.splits)
  from insert_loop_rc [OF il] assms(2) have rc: "rc = - 1" by simp
  from insert_loop_grow [OF il [unfolded rc]] obtain k where
    k: "k < length binary" "root' = grow root (take k (binary_bits binary))" by blast
  have bb: "binary_bits binary = route_path (prefix r) (prefix_len r)"
    using b by (simp add: ip_to_binary_bits route_path_def)
  have 1: "\<exists>k < nat (prefix_len r).
             root' = grow root (take k (route_path (prefix r) (prefix_len r)))"
    using k bb length_ip_to_binary [OF b] by auto
  have 2: "\<forall>q n. walk root q = Some n \<longrightarrow>
            (\<exists>n'. walk root' q = Some n' \<and> is_leaf n' = is_leaf n \<and> data n' = data n)"
    unfolding k(2) using walk_grow_old by blast
  have 3: "\<forall>q n'. walk root' q = Some n' \<and> walk root q = None \<longrightarrow>
            \<not> is_leaf n' \<and> data n' = None \<and>
            (children n' False = None \<or> children n' True = None)"
  proof (intro allI impI)
    fix q n'
    assume a: "walk root' q = Some n' \<and> walk root q = None"
    then have "walk (grow root (take k (binary_bits binary))) q = Some n'" "walk root q = None"
      using k(2) by simp_all
    from walk_grow_new [OF this] walk_grow_new_children [OF this]
    show "\<not> is_leaf n' \<and> data n' = None \<and>
            (children n' False = None \<or> children n' True = None)"
      by simp
  qed
  have 4: "\<forall>addr. lookup_route_optimized root' addr = lookup_route_optimized root addr"
    unfolding k(2) by (simp add: lookup_best_on best_on_grow)
  have 5: "\<forall>h2 r2. 0 \<le> prefix_len r2 \<and> prefix_len r2 \<le> 32 \<longrightarrow>
            (\<exists>res. insert_route h2 root' r2 = Some res)"
  proof (intro allI impI)
    fix h2 and r2 :: route_entry
    assume "0 \<le> prefix_len r2 \<and> prefix_len r2 \<le> 32"
    then obtain b2 where "ip_to_binary (prefix r2) (prefix_len r2) = Some b2"
      using ip_to_binary_Some by blast
    then have "insert_route h2 root' r2 = Some (insert_loop h2 root' b2 r2)"
      by (simp add: insert_route_def)
    then show "\<exists>res. insert_route h2 root' r2 = Some res" ..
  qed
  from rc 1 2 3 4 5 show ?thesis by (intro conjI)
qed

theorem partial_insert_safe_witness:
  "insert_route [True, False] fresh_node route_10_8
     = Some (- 1, Node (Some fresh_node) None None False, []) \<and>
   (- 1 :: int) \<noteq> 0 \<and>
   walk fresh_node [False] = None \<and>
   walk (Node (Some fresh_node) None None False) [False] = Some fresh_node \<and>
   lookup_route_optimized (Node (Some fresh_node) None None False) 0x0A000001
     = lookup_route_optimized fresh_node 0x0A000001 \<and>
   (\<exists>res. insert_route plenty (Node (Some fresh_node) None None False) route_10_8 = Some res)"
proof -
  have e: "insert_route [True, False] fresh_node route_10_8
             = Some (- 1, Node (Some fresh_node) None None False, [])"
    by code_simp
  have n: "(- 1 :: int) \<noteq> 0" by simp
  have w: "walk fresh_node [False] = None"
    "walk (Node (Some fresh_node) None None False) [False] = Some fresh_node"
    by code_simp+
  have l: "0 \<le> prefix_len route_10_8 \<and> prefix_len route_10_8 \<le> 32"
    by (simp add: route_10_8_def)
  note t = partial_insert_safe [OF e n]
  from t have 4: "lookup_route_optimized (Node (Some fresh_node) None None False) 0x0A000001
                    = lookup_route_optimized fresh_node 0x0A000001"
    by blast
  from t l have 5: "\<exists>res. insert_route plenty (Node (Some fresh_node) None None False) route_10_8
                     = Some res"
    by blast
  from e n w 4 5 show ?thesis by (intro conjI)
qed

subsection \<open>C9: a route of length 0 is never returned\<close>

text \<open>
  C9. A route whose \<open>prefix_len\<close> is 0 is attached to the root: the loop of
  \<open>insert_route\<close> does not run, no node is allocated, and the root gets the record and
  the leaf flag. \<open>lookup_route_optimized\<close> does not depend on the record and the leaf
  flag of the root, whatever they are, so the lookup of every address gives the same
  result after the insertion as before it, and in a trie that holds only this route every
  lookup returns nothing.
\<close>

theorem default_route_never_returned:
  assumes "prefix_len r = 0"
  shows "insert_route h root r = Some (0, set_is_leaf (set_data root (Some r)) True, h) \<and>
         (\<forall>d l addr. lookup_route_optimized (set_is_leaf (set_data root d) l) addr
                       = lookup_route_optimized root addr) \<and>
         (\<forall>addr. lookup_route_optimized (set_is_leaf (set_data root (Some r)) True) addr
                       = lookup_route_optimized root addr) \<and>
         (\<forall>addr. lookup_route_optimized (set_is_leaf (set_data fresh_node (Some r)) True) addr
                       = None)"
proof -
  have "ip_to_binary (prefix r) (prefix_len r) = Some []"
    using assms by (simp add: ip_to_binary_def)
  then have "insert_route h root r = Some (0, set_is_leaf (set_data root (Some r)) True, h)"
    by (simp add: insert_route_def)
  moreover have "lookup_route_optimized fresh_node addr = None" for addr
    by (simp add: lookup_best_on)
  ultimately show ?thesis by (simp add: lookup_ignores_root_flags)
qed

theorem default_route_never_returned_witness:
  "prefix_len route_default = 0 \<and>
   insert_route [] fresh_node route_default
     = Some (0, Node None None (Some route_default) True, []) \<and>
   lookup_route_optimized (Node None None (Some route_default) True) 0x0A000001 = None"
proof -
  have h: "prefix_len route_default = 0" by (simp add: route_default_def)
  have e: "set_is_leaf (set_data fresh_node (Some route_default)) True
             = Node None None (Some route_default) True"
    by (simp add: set_is_leaf_def set_data_def fresh_node_def)
  note t = default_route_never_returned [OF h, of "[]" fresh_node, unfolded e]
  show ?thesis
  proof (intro conjI)
    show "prefix_len route_default = 0" by (rule h)
    show "insert_route [] fresh_node route_default
            = Some (0, Node None None (Some route_default) True, [])"
      by (rule t [THEN conjunct1])
    show "lookup_route_optimized (Node None None (Some route_default) True) 0x0A000001 = None"
      by (rule t [THEN conjunct2, THEN conjunct2, THEN conjunct2, rule_format])
  qed
qed

subsection \<open>C10: the cache only grows\<close>

text \<open>
  C10. A call of \<open>lookup_with_cache\<close> never removes or replaces an entry: the capacity
  stays, the entries stored before the call are the first entries after it, in the same
  order, and the call either adds nothing or appends one entry for the address looked up,
  so the number of entries never decreases. When every entry for the address is expired,
  the trie returns a route and the cache is below capacity, the expired entries stay and
  the new entry for the same address is appended after them.
\<close>

theorem cache_append_only:
  assumes "lookup_with_cache root cache addr cache_ttl now = (r, cache')"
  shows "capacity cache' = capacity cache \<and>
         (entries cache' = entries cache \<or>
          entries cache' = entries cache @ [\<lparr>ip = addr, route = r, timestamp = now\<rparr>]) \<and>
         length (entries cache) \<le> length (entries cache') \<and>
         take (length (entries cache)) (entries cache') = entries cache \<and>
         ((\<forall>e \<in> set (entries cache). ip e = addr \<longrightarrow> \<not> now - timestamp e < cache_ttl) \<and>
          lookup_route_optimized root addr \<noteq> None \<and>
          int (length (entries cache)) < capacity cache \<longrightarrow>
            entries cache' = entries cache @
              [\<lparr>ip = addr, route = lookup_route_optimized root addr, timestamp = now\<rparr>])"
proof -
  from lookup_with_cache_cases [OF assms]
  have 1: "capacity cache' = capacity cache"
    and 2: "entries cache' = entries cache \<or>
          entries cache' = entries cache @ [\<lparr>ip = addr, route = r, timestamp = now\<rparr>]"
    and 3: "length (entries cache) \<le> length (entries cache')"
    and 4: "take (length (entries cache)) (entries cache') = entries cache"
    by auto
  have 5: "(\<forall>e \<in> set (entries cache). ip e = addr \<longrightarrow> \<not> now - timestamp e < cache_ttl) \<and>
          lookup_route_optimized root addr \<noteq> None \<and>
          int (length (entries cache)) < capacity cache \<longrightarrow>
            entries cache' = entries cache @
              [\<lparr>ip = addr, route = lookup_route_optimized root addr, timestamp = now\<rparr>]"
  proof
    assume a: "(\<forall>e \<in> set (entries cache). ip e = addr \<longrightarrow> \<not> now - timestamp e < cache_ttl) \<and>
          lookup_route_optimized root addr \<noteq> None \<and>
          int (length (entries cache)) < capacity cache"
    then have "find (\<lambda>e. ip e = addr \<and> now - timestamp e < cache_ttl) (entries cache) = None"
      by (auto simp: find_None_iff)
    from lookup_with_cache_miss [OF this, of root] a assms
    show "entries cache' = entries cache @
              [\<lparr>ip = addr, route = lookup_route_optimized root addr, timestamp = now\<rparr>]"
      by (auto simp: Let_def)
  qed
  from 1 2 3 4 5 show ?thesis by (intro conjI)
qed

theorem cache_append_only_witness:
  "lookup_with_cache trie_10_8_24 cache_one 0x0A000105 60 200
     = (Some route_10_0_1_24,
        cache_one\<lparr>entries := entries cache_one @
          [\<lparr>ip = 0x0A000105, route = Some route_10_0_1_24, timestamp = 200\<rparr>]\<rparr>) \<and>
   filter (\<lambda>e. ip e = 0x0A000105 \<and> 200 - timestamp e < 60) (entries cache_one) = [] \<and>
   lookup_route_optimized trie_10_8_24 0x0A000105 \<noteq> None \<and>
   int (length (entries cache_one)) < capacity cache_one \<and>
   map ip (entries cache_one @
          [\<lparr>ip = 0x0A000105, route = Some route_10_0_1_24, timestamp = 200\<rparr>])
     = [0x0A000105, 0x0A000105]"
proof -
  have l: "lookup_route_optimized trie_10_8_24 0x0A000105 = Some route_10_0_1_24"
    by code_simp
  have h: "\<forall>e \<in> set (entries cache_one). ip e = 0x0A000105 \<longrightarrow> \<not> 200 - timestamp e < 60"
    "int (length (entries cache_one)) < capacity cache_one"
    by (simp_all add: cache_one_def)
  obtain r c' where e: "lookup_with_cache trie_10_8_24 cache_one 0x0A000105 60 200 = (r, c')"
    by (cases "lookup_with_cache trie_10_8_24 cache_one 0x0A000105 60 200")
  from cache_append_only [OF e] h l
  have en: "entries c' = entries cache_one @
              [\<lparr>ip = 0x0A000105, route = Some route_10_0_1_24, timestamp = 200\<rparr>]"
    and cap: "capacity c' = capacity cache_one"
    by simp_all
  then have c': "c' = cache_one\<lparr>entries := entries cache_one @
          [\<lparr>ip = 0x0A000105, route = Some route_10_0_1_24, timestamp = 200\<rparr>]\<rparr>"
    by simp
  have "fst (lookup_with_cache trie_10_8_24 cache_one 0x0A000105 60 200) = Some route_10_0_1_24"
    by code_simp
  with e have "r = Some route_10_0_1_24" by simp
  with e c' have a: "lookup_with_cache trie_10_8_24 cache_one 0x0A000105 60 200
     = (Some route_10_0_1_24,
        cache_one\<lparr>entries := entries cache_one @
          [\<lparr>ip = 0x0A000105, route = Some route_10_0_1_24, timestamp = 200\<rparr>]\<rparr>)"
    by simp
  have m: "map ip (entries cache_one @
          [\<lparr>ip = 0x0A000105, route = Some route_10_0_1_24, timestamp = 200\<rparr>])
     = [0x0A000105, 0x0A000105]"
    by (simp add: cache_one_def)
  from l have l': "lookup_route_optimized trie_10_8_24 0x0A000105 \<noteq> None" by simp
  have h': "filter (\<lambda>e. ip e = 0x0A000105 \<and> 200 - timestamp e < 60) (entries cache_one) = []"
    by (simp add: cache_one_def)
  from a h' h(2) l' m show ?thesis by (intro conjI)
qed

end
